theory Spec2Isabelle
  imports Main "HOL-Library.Word"
begin

unbundle bit_operations_syntax

section \<open>The portable SIMD kernels of velox/common/base/SimdUtil-inl.h\<close>

text \<open>
  The kernels are the fallbacks taken for an architecture tag that has no intrinsic path.
  An \<open>xsimd::batch<T, A>\<close> of the generic architectures is a \<open>std::array<T, N>\<close>,
  an \<open>xsimd::batch_bool<T, A>\<close> a \<open>std::array<bool, N>\<close>: both are lists here, lane 0
  first. Masks, lane numbers and table entries, which stay far inside 32 bits, are \<open>int\<close> or
  \<open>nat\<close>; the integers whose width decides a result (the byte offsets of a gather, the byte
  count of a copy, the words of a checksum) are words, with the conversions of the code
  written out; the positions of a bitmap scan are \<open>int\<close> with the wrap to \<open>int32_t\<close> written
  out.
  An access outside an array, a shift by more than the width and an instantiation that a
  \<open>static_assert\<close> rejects have no behaviour in C++; the model returns \<open>None\<close> there.
\<close>

type_synonym 'a batch = "'a list"
type_synonym batch_bool = "bool list"

text \<open>
  The architecture tags. \<open>A::size()\<close> is the register width in bytes; \<open>generic16\<close> and
  \<open>generic32\<close> are the two tags the file names, and \<open>indicesOfSetBits\<close> asserts that a
  batch of \<open>int32_t\<close> has 8 or 4 lanes.
\<close>

datatype arch = generic16 | generic32

fun arch_size :: "arch \<Rightarrow> nat" where
  "arch_size generic16 = 16"
| "arch_size generic32 = 32"

text \<open>\<open>xsimd::batch<T, A>::size\<close> for an element of \<open>sz\<close> bytes.\<close>

definition batch_size :: "arch \<Rightarrow> nat \<Rightarrow> nat" where
  "batch_size a sz = arch_size a div sz"

text \<open>Modelled from the spec: \<open>bits::lowMask\<close> is declared outside this file; the spec gives
  \<open>kAllSet = 2^N - 1\<close>, the mask of the \<open>N\<close> low bits.\<close>

definition lowMask :: "nat \<Rightarrow> int" where
  "lowMask n = 2 ^ n - 1"

subsection \<open>Boolean lane mask and scalar bitmask (\<open>detail::BitMask\<close>)\<close>

text \<open>\<open>BitMask::toBitMask\<close>: the loop over the lanes, \<open>result |= 1ull << i\<close> for a true lane.\<close>

fun toBitMask_loop :: "batch_bool \<Rightarrow> nat \<Rightarrow> int \<Rightarrow> int" where
  "toBitMask_loop [] i result = result"
| "toBitMask_loop (m # ms) i result =
     toBitMask_loop ms (Suc i) (if m then result OR push_bit i 1 else result)"

definition toBitMask :: "batch_bool \<Rightarrow> int" where
  "toBitMask bm = toBitMask_loop bm 0 0"

text \<open>\<open>fromBitMaskImpl\<close>: the table \<open>kMemo\<close> of all \<open>1 << N\<close> patterns, entry \<open>i\<close> holding
  \<open>(i & (1 << bit)) ? true : false\<close> in lane \<open>bit\<close>.\<close>

definition fromBitMask_kMemo :: "nat \<Rightarrow> batch_bool list" where
  "fromBitMask_kMemo N =
     map (\<lambda>i. map (\<lambda>b. int i AND push_bit b 1 \<noteq> 0) [0..<N]) [0..<2 ^ N]"

text \<open>The lookup \<open>kMemo[mask]\<close>; \<open>static_assert(N <= 8)\<close> guards the table.\<close>

definition fromBitMaskImpl_with :: "batch_bool list \<Rightarrow> nat \<Rightarrow> int \<Rightarrow> batch_bool option" where
  "fromBitMaskImpl_with memo N m =
     (if N \<le> 8 \<and> 0 \<le> m \<and> nat m < length memo then Some (memo ! nat m) else None)"

definition kAllSet :: "nat \<Rightarrow> int" where
  "kAllSet N = lowMask N"

text \<open>\<open>BitMask::fromBitMask\<close>, over any table, and with the table the code builds.\<close>

definition fromBitMask_with :: "batch_bool list \<Rightarrow> nat \<Rightarrow> int \<Rightarrow> batch_bool option" where
  "fromBitMask_with memo N m =
     (if m = kAllSet N then Some (replicate N True) else fromBitMaskImpl_with memo N m)"

definition fromBitMaskImpl :: "nat \<Rightarrow> int \<Rightarrow> batch_bool option" where
  "fromBitMaskImpl N m = fromBitMaskImpl_with (fromBitMask_kMemo N) N m"

definition fromBitMask :: "nat \<Rightarrow> int \<Rightarrow> batch_bool option" where
  "fromBitMask N m = fromBitMask_with (fromBitMask_kMemo N) N m"

lemma bit_toBitMask_loop:
  "bit (toBitMask_loop ms i r) k \<longleftrightarrow>
     bit r k \<or> (i \<le> k \<and> k < i + length ms \<and> ms ! (k - i))"
proof (induction ms arbitrary: i r)
  case Nil
  show ?case by auto
next
  case (Cons m ms)
  have step: "(Suc i \<le> k \<and> k < Suc i + length ms \<and> ms ! (k - Suc i)) \<or> (m \<and> k = i)
      \<longleftrightarrow> (i \<le> k \<and> k < i + length (m # ms) \<and> (m # ms) ! (k - i))"
    by (cases "k = i") (auto simp: nth_Cons' Suc_le_eq)
  have "bit (toBitMask_loop (m # ms) i r) k \<longleftrightarrow>
      bit r k \<or> (m \<and> k = i) \<or> (Suc i \<le> k \<and> k < Suc i + length ms \<and> ms ! (k - Suc i))"
    by (auto simp: Cons.IH bit_or_iff bit_exp_iff)
  then show ?case using step by blast
qed

lemma bit_toBitMask:
  "bit (toBitMask ms) k \<longleftrightarrow> k < length ms \<and> ms ! k"
  by (simp add: toBitMask_def bit_toBitMask_loop)

lemma and_push_bit_1_int: "(m :: int) AND push_bit b 1 \<noteq> 0 \<longleftrightarrow> bit m b"
  by (simp add: and_exp_eq_0_iff_not_bit)

lemma toBitMask_pattern:
  assumes "0 \<le> m" "m < 2 ^ N"
  shows "toBitMask (map (\<lambda>b. m AND push_bit b 1 \<noteq> 0) [0..<N]) = m"
proof (rule bit_eqI)
  fix k
  have high: "\<not> bit m k" if "N \<le> k"
  proof -
    have "m < 2 ^ k"
      using assms(2) that by (meson less_le_trans one_le_numeral power_increasing)
    then have "take_bit k m = m" using assms(1) by (simp add: take_bit_int_eq_self)
    then show ?thesis by (metis bit_take_bit_iff less_irrefl)
  qed
  show "bit (toBitMask (map (\<lambda>b. m AND push_bit b 1 \<noteq> 0) [0..<N])) k = bit m k"
  proof (cases "k < N")
    case True
    then show ?thesis by (simp add: bit_toBitMask and_exp_eq_0_iff_not_bit)
  next
    case False
    then show ?thesis using high [of] by (simp add: bit_toBitMask)
  qed
qed

lemma toBitMask_all_true: "toBitMask (replicate N True) = kAllSet N"
proof (rule bit_eqI)
  fix k
  have "kAllSet N = mask N" by (simp add: kAllSet_def lowMask_def mask_eq_exp_minus_1)
  then show "bit (toBitMask (replicate N True)) k = bit (kAllSet N) k"
    by (auto simp: bit_toBitMask bit_mask_iff)
qed

text \<open>
  C7. For every lane count \<open>N \<le> 8\<close> and every \<open>m\<close> in \<open>[0, 2^N)\<close>, \<open>fromBitMask\<close> returns a
  mask that \<open>toBitMask\<close> maps back to \<open>m\<close>; for \<open>m = kAllSet = 2^N - 1\<close> the all-true batch is
  returned whatever the table holds, and for every other \<open>m\<close> the result is the table's
  entry \<open>kMemo[m]\<close>.
\<close>

theorem fromBitMask_roundtrip:
  assumes "N \<le> 8" "0 \<le> m" "m < 2 ^ N"
  shows "(\<exists>mk. fromBitMask N m = Some mk \<and> length mk = N \<and> toBitMask mk = m)
    \<and> kAllSet N = 2 ^ N - 1
    \<and> (\<forall>memo. fromBitMask_with memo N (kAllSet N) = Some (replicate N True))
    \<and> (m \<noteq> kAllSet N \<longrightarrow> fromBitMask N m = Some (fromBitMask_kMemo N ! nat m))"
proof -
  have idx: "nat m < 2 ^ N" using assms(2,3) by (simp add: nat_less_iff)
  have entry: "fromBitMask_kMemo N ! nat m = map (\<lambda>b. m AND push_bit b 1 \<noteq> 0) [0..<N]"
    using idx assms(2) by (simp add: fromBitMask_kMemo_def)
  have impl: "fromBitMaskImpl_with (fromBitMask_kMemo N) N m = Some (fromBitMask_kMemo N ! nat m)"
    using idx assms(1,2) by (simp add: fromBitMaskImpl_with_def fromBitMask_kMemo_def)
  have rt: "\<exists>mk. fromBitMask N m = Some mk \<and> length mk = N \<and> toBitMask mk = m"
  proof (cases "m = kAllSet N")
    case True
    then show ?thesis by (simp add: fromBitMask_def fromBitMask_with_def toBitMask_all_true)
  next
    case False
    then have "fromBitMask N m = Some (map (\<lambda>b. m AND push_bit b 1 \<noteq> 0) [0..<N])"
      by (simp add: fromBitMask_def fromBitMask_with_def impl entry)
    then show ?thesis using toBitMask_pattern [OF assms(2,3)] by simp
  qed
  have other: "m \<noteq> kAllSet N \<longrightarrow> fromBitMask N m = Some (fromBitMask_kMemo N ! nat m)"
    by (simp add: fromBitMask_def fromBitMask_with_def impl)
  show ?thesis using rt other
    by (simp add: fromBitMask_with_def kAllSet_def lowMask_def)
qed

theorem fromBitMask_roundtrip_witness:
  "(\<exists>mk. fromBitMask 4 5 = Some mk \<and> length mk = 4 \<and> toBitMask mk = 5)
    \<and> fromBitMask 4 5 = Some [True, False, True, False]
    \<and> fromBitMask 4 15 = Some [True, True, True, True]"
proof -
  have "(4::nat) \<le> 8" "(0::int) \<le> 5" "(5::int) < 2 ^ 4" by simp_all
  note r = fromBitMask_roundtrip [OF this]
  have a: "\<exists>mk. fromBitMask 4 5 = Some mk \<and> length mk = 4 \<and> toBitMask mk = 5"
    using r by blast
  have "(5::int) \<noteq> kAllSet 4" by (simp add: kAllSet_def lowMask_def)
  then have b: "fromBitMask 4 5 = Some (fromBitMask_kMemo 4 ! nat 5)"
    using r by blast
  have c: "fromBitMask_kMemo 4 ! nat 5 = [True, False, True, False]"
    by code_simp
  have d: "fromBitMask 4 15 = Some [True, True, True, True]"
    by code_simp
  show ?thesis using a b c d by simp
qed

subsection \<open>\<open>leadingMask\<close>\<close>

text \<open>The table \<open>kMemo\<close> is filled by the loop \<open>memo[i] = tmp; tmp[i] = true\<close>, from a
  \<open>tmp\<close> of \<open>N\<close> false lanes. The array \<open>memo\<close> starts uninitialised; the model starts it
  with empty entries, and every entry is written before the table is used.\<close>

function leadingMask_fill :: "nat \<Rightarrow> nat \<Rightarrow> bool list \<Rightarrow> batch_bool list \<Rightarrow> batch_bool list" where
  "leadingMask_fill N i tmp memo =
     (if i < N then leadingMask_fill N (Suc i) (tmp[i := True]) (memo[i := tmp]) else memo)"
  by pat_completeness auto
termination
  by (relation "measure (\<lambda>(N, i, tmp, memo). N - i)") auto

definition leadingMask_kMemo :: "nat \<Rightarrow> batch_bool list" where
  "leadingMask_kMemo N = leadingMask_fill N 0 (replicate N False) (replicate N [])"

text \<open>\<open>LIKELY(n >= N) ? batch_bool(true) : kMemo[n]\<close>, over any table and over the table
  the code builds.\<close>

definition leadingMask_with :: "batch_bool list \<Rightarrow> nat \<Rightarrow> int \<Rightarrow> batch_bool option" where
  "leadingMask_with memo N n =
     (if int N \<le> n then Some (replicate N True)
      else if 0 \<le> n \<and> nat n < length memo then Some (memo ! nat n)
      else None)"

definition leadingMask :: "nat \<Rightarrow> int \<Rightarrow> batch_bool option" where
  "leadingMask N n = leadingMask_with (leadingMask_kMemo N) N n"

text \<open>The mask with \<open>k\<close> leading true lanes, for the proofs.\<close>

definition leading :: "nat \<Rightarrow> nat \<Rightarrow> bool list" where
  "leading N k = replicate k True @ replicate (N - k) False"

declare leadingMask_fill.simps [simp del]

lemma leading_length: "k \<le> N \<Longrightarrow> length (leading N k) = N"
  by (simp add: leading_def)

lemma leading_nth: "k \<le> N \<Longrightarrow> j < N \<Longrightarrow> leading N k ! j \<longleftrightarrow> j < k"
  by (simp add: leading_def nth_append)

lemma leading_step: "i < N \<Longrightarrow> (leading N i)[i := True] = leading N (Suc i)"
  by (auto simp: list_eq_iff_nth_eq leading_length leading_nth nth_list_update less_Suc_eq)

lemma leadingMask_fill_length: "length (leadingMask_fill N i tmp memo) = length memo"
  by (induction N i tmp memo rule: leadingMask_fill.induct)
     (subst leadingMask_fill.simps, simp)

lemma leadingMask_fill_nth:
  "i \<le> N \<Longrightarrow> length memo = N \<Longrightarrow> j < N \<Longrightarrow>
   leadingMask_fill N i (leading N i) memo ! j = (if j < i then memo ! j else leading N j)"
proof (induction "N - i" arbitrary: i memo)
  case 0
  then show ?case by (subst leadingMask_fill.simps) simp
next
  case (Suc d)
  then have lt: "i < N" by simp
  have "leadingMask_fill N i (leading N i) memo ! j =
        leadingMask_fill N (Suc i) (leading N (Suc i)) (memo[i := leading N i]) ! j"
    using lt by (subst leadingMask_fill.simps) (simp add: leading_step)
  also have "\<dots> = (if j < Suc i then (memo[i := leading N i]) ! j else leading N j)"
    using Suc lt by (intro Suc.hyps(1)) auto
  also have "\<dots> = (if j < i then memo ! j else leading N j)"
    using Suc.prems by (auto simp: less_Suc_eq)
  finally show ?case .
qed

lemma leadingMask_kMemo_nth: "j < N \<Longrightarrow> leadingMask_kMemo N ! j = leading N j"
  using leadingMask_fill_nth [of 0 N "replicate N []" j]
  by (simp add: leadingMask_kMemo_def leading_def)

lemma leadingMask_kMemo_length: "length (leadingMask_kMemo N) = N"
  by (simp add: leadingMask_kMemo_def leadingMask_fill_length)

text \<open>
  C8. For every \<open>n \<ge> 0\<close>, \<open>leadingMask(n)\<close> returns a mask of \<open>N\<close> lanes whose first
  \<open>min(n, N)\<close> lanes are true and whose other lanes are false, so exactly \<open>min(n, N)\<close> lanes
  are true; for \<open>n \<ge> N\<close> the all-true mask is returned whatever the table holds.
\<close>

theorem leadingMask_prefix:
  assumes "0 \<le> n"
  shows "(\<exists>m. leadingMask N n = Some m
           \<and> m = replicate (min (nat n) N) True @ replicate (N - min (nat n) N) False
           \<and> length m = N
           \<and> length (filter (\<lambda>b. b) m) = min (nat n) N)
    \<and> (\<forall>memo. int N \<le> n \<longrightarrow> leadingMask_with memo N n = Some (replicate N True))"
proof (cases "int N \<le> n")
  case True
  then have "min (nat n) N = N" by simp
  then show ?thesis using True by (simp add: leadingMask_def leadingMask_with_def)
next
  case False
  then have lt: "nat n < N" using assms by simp
  then have "leadingMask N n = Some (leading N (nat n))"
    using assms False
    by (simp add: leadingMask_def leadingMask_with_def leadingMask_kMemo_nth
        leadingMask_kMemo_length)
  then show ?thesis using lt False by (simp add: leading_def min_def)
qed

theorem leadingMask_prefix_witness:
  "leadingMask 4 2 = Some [True, True, False, False]
   \<and> leadingMask 4 9 = Some [True, True, True, True]
   \<and> (\<exists>m. leadingMask 8 3 = Some m \<and> length (filter (\<lambda>b. b) m) = 3)"
proof -
  have "(0::int) \<le> 3" by simp
  from leadingMask_prefix [OF this, of 8]
  have "\<exists>m. leadingMask 8 3 = Some m \<and> length (filter (\<lambda>b. b) m) = 3"
    by auto
  moreover have "leadingMask 4 2 = Some [True, True, False, False]" by code_simp
  moreover have "leadingMask 4 9 = Some [True, True, True, True]" by code_simp
  ultimately show ?thesis by blast
qed

subsection \<open>The byte-to-offsets table \<open>byteSetBits\<close>\<close>

text \<open>Modelled from the spec: the table \<open>byteSetBits\<close> (256 rows of 8 \<open>int32_t\<close>) is declared
  and filled outside this file. The spec has it map a byte to the offsets of its set bits,
  in ascending order. What a row holds after these offsets is not said: it is the
  parameter \<open>fill\<close> (row, position).\<close>

definition setBitOffsets :: "nat \<Rightarrow> int list" where
  "setBitOffsets b = map int (filter (bit b) [0..<8])"

definition byteSetBits_row :: "(nat \<Rightarrow> nat \<Rightarrow> int) \<Rightarrow> nat \<Rightarrow> int list" where
  "byteSetBits_row fill b =
     setBitOffsets b @ map (fill b) [length (setBitOffsets b)..<8]"

text \<open>\<open>byteSetBits[mask]\<close> for an \<open>int\<close> mask: a row of the table, or outside it.\<close>

definition byteSetBits :: "(nat \<Rightarrow> nat \<Rightarrow> int) \<Rightarrow> int \<Rightarrow> int list option" where
  "byteSetBits fill m = (if 0 \<le> m \<and> m < 256 then Some (byteSetBits_row fill (nat m)) else None)"

subsection \<open>Permute\<close>

text \<open>\<open>genericPermute(batch, const int32_t*)\<close>: \<open>dst[i] = idx[i] < 0 ? 0 : src[idx[i]]\<close> for
  every lane \<open>i < N\<close>, \<open>N\<close> the lane count of \<open>data\<close>. \<open>dst\<close> starts uninitialised and every
  lane of it is written.\<close>

function genericPermute_loop ::
  "nat \<Rightarrow> 'a::zero list \<Rightarrow> int list \<Rightarrow> nat \<Rightarrow> 'a list \<Rightarrow> 'a list option" where
  "genericPermute_loop N src idx i dst =
     (if i < N then
        (if i < length idx then
           (if idx ! i < 0 then genericPermute_loop N src idx (Suc i) (dst[i := 0])
            else if nat (idx ! i) < length src
              then genericPermute_loop N src idx (Suc i) (dst[i := src ! nat (idx ! i)])
              else None)
         else None)
      else Some dst)"
  by pat_completeness auto
termination
  by (relation "measure (\<lambda>(N, src, idx, i, dst). N - i)") auto

definition genericPermute :: "'a::zero batch \<Rightarrow> int list \<Rightarrow> 'a batch option" where
  "genericPermute data idx =
     genericPermute_loop (length data) data idx 0 (replicate (length data) 0)"

text \<open>\<open>genericPermute(batch<T, A>, batch<int32_t, A>)\<close>: the indices are stored to \<open>pos\<close> and
  handed on, under \<open>static_assert(data.size >= idx.size)\<close>.\<close>

definition genericPermute_batch :: "'a::zero batch \<Rightarrow> int batch \<Rightarrow> 'a batch option" where
  "genericPermute_batch data idx =
     (if length idx \<le> length data then genericPermute data idx else None)"

text \<open>\<open>genericPermute(Batch64<T>, Batch64<int32_t>)\<close>: \<open>ans.data[i] = data.data[idx.data[i]]\<close>
  for \<open>i < idx.size\<close>, with no test of the sign. The lanes of \<open>ans\<close> from \<open>idx.size\<close> on are
  never written; the model returns the lanes written.\<close>

function genericPermute_Batch64_loop ::
  "'a list \<Rightarrow> int list \<Rightarrow> nat \<Rightarrow> 'a list \<Rightarrow> 'a list option" where
  "genericPermute_Batch64_loop src idx i ans =
     (if i < length idx then
        (if 0 \<le> idx ! i \<and> nat (idx ! i) < length src
           then genericPermute_Batch64_loop src idx (Suc i) (ans @ [src ! nat (idx ! i)])
           else None)
      else Some ans)"
  by pat_completeness auto
termination
  by (relation "measure (\<lambda>(src, idx, i, ans). length idx - i)") auto

definition genericPermute_Batch64 :: "'a batch \<Rightarrow> int batch \<Rightarrow> 'a batch option" where
  "genericPermute_Batch64 data idx =
     (if length idx \<le> length data then genericPermute_Batch64_loop data idx 0 [] else None)"

text \<open>\<open>Permute<T, A, 4>::apply\<close> on full batches, and on half batches: \<open>HalfBatch<T, A>\<close> is
  \<open>Batch64<T>\<close> when \<open>A::size() == 16\<close> and \<open>xsimd::batch<T, generic16>\<close> when it is 32.\<close>

definition Permute_apply :: "'a::zero batch \<Rightarrow> int batch \<Rightarrow> 'a batch option" where
  "Permute_apply data idx = genericPermute_batch data idx"

fun Permute_apply_half :: "arch \<Rightarrow> 'a::zero batch \<Rightarrow> int batch \<Rightarrow> 'a batch option" where
  "Permute_apply_half generic16 data idx = genericPermute_Batch64 data idx"
| "Permute_apply_half generic32 data idx = genericPermute_batch data idx"

declare genericPermute_loop.simps [simp del]
declare genericPermute_Batch64_loop.simps [simp del]

text \<open>Lane \<open>i\<close> of a permute, for the statements.\<close>

definition permute_lane :: "'a::zero list \<Rightarrow> int list \<Rightarrow> nat \<Rightarrow> 'a" where
  "permute_lane src idx i = (if idx ! i < 0 then 0 else src ! nat (idx ! i))"

lemma permute_lane_nonneg: "0 \<le> idx ! k \<Longrightarrow> permute_lane src idx k = src ! nat (idx ! k)"
  by (simp add: permute_lane_def)

lemma genericPermute_loop_Some:
  assumes "N \<le> length idx" "length dst = N" "i \<le> N"
    and "\<And>k. i \<le> k \<Longrightarrow> k < N \<Longrightarrow> idx ! k < 0 \<or> nat (idx ! k) < length src"
  shows "genericPermute_loop N src idx i dst = Some (take i dst @ map (permute_lane src idx) [i..<N])"
  using assms
proof (induction "N - i" arbitrary: i dst)
  case 0
  then show ?case by (subst genericPermute_loop.simps) simp
next
  case (Suc d)
  then have lt: "i < N" by simp
  have ok: "idx ! i < 0 \<or> nat (idx ! i) < length src" using Suc.prems(4) [of i] lt by simp
  let ?dst = "dst[i := permute_lane src idx i]"
  have "genericPermute_loop N src idx i dst = genericPermute_loop N src idx (Suc i) ?dst"
    using lt ok Suc.prems(1) by (subst genericPermute_loop.simps) (auto simp: permute_lane_def)
  also have "\<dots> = Some (take (Suc i) ?dst @ map (permute_lane src idx) [Suc i..<N])"
    using Suc lt by (intro Suc.hyps(1)) auto
  also have "take (Suc i) ?dst = take i dst @ [permute_lane src idx i]"
    using lt Suc.prems(2) by (simp add: take_Suc_conv_app_nth)
  finally show ?case using lt by (simp add: upt_conv_Cons)
qed

lemma genericPermute_Some:
  assumes "length data \<le> length idx"
    and "\<And>k. k < length data \<Longrightarrow> idx ! k < 0 \<or> nat (idx ! k) < length data"
  shows "genericPermute data idx = Some (map (permute_lane data idx) [0..<length data])"
  using genericPermute_loop_Some [of "length data" idx "replicate (length data) 0" 0 data] assms
  by (simp add: genericPermute_def)

lemma genericPermute_Batch64_loop_Some:
  assumes "i \<le> length idx"
    and "\<And>k. i \<le> k \<Longrightarrow> k < length idx \<Longrightarrow> 0 \<le> idx ! k \<and> nat (idx ! k) < length src"
  shows "genericPermute_Batch64_loop src idx i ans =
         Some (ans @ map (\<lambda>k. src ! nat (idx ! k)) [i..<length idx])"
  using assms
proof (induction "length idx - i" arbitrary: i ans)
  case 0
  then show ?case by (subst genericPermute_Batch64_loop.simps) simp
next
  case (Suc d)
  then have lt: "i < length idx" by simp
  have ok: "0 \<le> idx ! i \<and> nat (idx ! i) < length src" using Suc.prems(2) [of i] lt by simp
  have "genericPermute_Batch64_loop src idx i ans =
        genericPermute_Batch64_loop src idx (Suc i) (ans @ [src ! nat (idx ! i)])"
    using lt ok by (subst genericPermute_Batch64_loop.simps) simp
  also have "\<dots> = Some ((ans @ [src ! nat (idx ! i)]) @ map (\<lambda>k. src ! nat (idx ! k)) [Suc i..<length idx])"
    using Suc lt by (intro Suc.hyps(1)) auto
  finally show ?case using lt by (simp add: upt_conv_Cons)
qed


lemma genericPermute_Batch64_Some:
  assumes "length idx \<le> length data"
    and "\<And>k. k < length idx \<Longrightarrow> 0 \<le> idx ! k \<and> nat (idx ! k) < length data"
  shows "genericPermute_Batch64 data idx = Some (map (\<lambda>k. data ! nat (idx ! k)) [0..<length idx])"
  using genericPermute_Batch64_loop_Some [of 0 idx data "[]"] assms
  by (simp add: genericPermute_Batch64_def)

text \<open>
  C5. A permute yields, in lane \<open>i\<close>, lane \<open>indices[i]\<close> of the data, and zero for a negative
  index. The variants that go through \<open>genericPermute(batch, const int32_t*)\<close> do so: on
  \<open>data = [5, 6, 7]\<close> and indices \<open>[2, -1, 0]\<close> the result is \<open>[7, 0, 5]\<close>, and so does the
  half-width permute of a 32-byte architecture. The \<open>Batch64\<close> variant, the half-width
  permute of a 16-byte architecture, reads \<open>data.data[-1]\<close> for the index \<open>-1\<close>, outside the
  array, where its sibling writes zero.
\<close>

theorem genericPermute_Batch64_negative_index:
  "genericPermute [5, 6, 7 :: int] [2, -1, 0] = Some [7, 0, 5]
   \<and> Permute_apply [5, 6, 7 :: int] [2, -1, 0] = Some [7, 0, 5]
   \<and> Permute_apply_half generic32 [5, 6, 7, 8 :: int] [-1, 0, 3, 1] = Some [0, 5, 8, 6]
   \<and> genericPermute_Batch64 [5, 6 :: int] [1, 0] = Some [6, 5]
   \<and> genericPermute_Batch64 [5, 6 :: int] [-1, 0] = None
   \<and> Permute_apply_half generic16 [5, 6 :: int] [-1, 0] = None"
  by (simp add: genericPermute_def genericPermute_batch_def Permute_apply_def
      genericPermute_Batch64_def genericPermute_loop.simps genericPermute_Batch64_loop.simps)

text \<open>What holds of every variant but \<open>Batch64\<close>: for indices that are negative or lane
  numbers, lane \<open>i\<close> is zero or lane \<open>indices[i]\<close> of the data.\<close>

lemma Permute_apply_lanes:
  assumes "length idx = length data"
    and "\<forall>k < length data. idx ! k < 0 \<or> idx ! k < int (length data)"
  shows "\<exists>r. Permute_apply data idx = Some r \<and> length r = length data
     \<and> (\<forall>i < length data. r ! i = (if idx ! i < 0 then 0 else data ! nat (idx ! i)))"
proof -
  have "\<And>k. k < length data \<Longrightarrow> idx ! k < 0 \<or> nat (idx ! k) < length data"
    using assms(2) by (metis nat_less_iff not_le)
  then have "genericPermute data idx = Some (map (permute_lane data idx) [0..<length data])"
    using assms(1) by (intro genericPermute_Some) simp_all
  then show ?thesis
    using assms(1) by (simp add: Permute_apply_def genericPermute_batch_def permute_lane_def)
qed

subsection \<open>Filter\<close>

text \<open>\<open>Filter<T, A, 2>::apply\<close>: the result starts as zeros, and the lanes whose bit of the
  mask is set are written through \<open>write_ptr\<close>, in lane order.\<close>

function Filter2_loop :: "'a list \<Rightarrow> int \<Rightarrow> nat \<Rightarrow> 'a list \<Rightarrow> nat \<Rightarrow> 'a list option" where
  "Filter2_loop data m i result write_ptr =
     (if i < length data then
        (if m AND push_bit i 1 \<noteq> 0 then
           (if write_ptr < length result
              then Filter2_loop data m (Suc i) (result[write_ptr := data ! i]) (Suc write_ptr)
              else None)
         else Filter2_loop data m (Suc i) result write_ptr)
      else Some result)"
  by pat_completeness auto
termination
  by (relation "measure (\<lambda>(data, m, i, result, write_ptr). length data - i)") auto

definition Filter2 :: "'a::zero batch \<Rightarrow> int \<Rightarrow> 'a batch option" where
  "Filter2 data m = Filter2_loop data m 0 (replicate (length data) 0) 0"

text \<open>\<open>Filter<T, A, 4>::apply\<close>: the row \<open>byteSetBits[mask]\<close> is loaded as a batch of
  \<open>int32_t\<close> (of the lane count of \<open>A\<close>, or of a half batch) and given to \<open>Permute\<close>.\<close>

definition Filter4 ::
  "(nat \<Rightarrow> nat \<Rightarrow> int) \<Rightarrow> arch \<Rightarrow> 'a::zero batch \<Rightarrow> int \<Rightarrow> 'a batch option" where
  "Filter4 fill a data m =
     (case byteSetBits fill m of
        None \<Rightarrow> None
      | Some row \<Rightarrow> Permute_apply data (take (batch_size a 4) row))"

definition Filter4_half ::
  "(nat \<Rightarrow> nat \<Rightarrow> int) \<Rightarrow> arch \<Rightarrow> 'a::zero batch \<Rightarrow> int \<Rightarrow> 'a batch option" where
  "Filter4_half fill a data m =
     (case byteSetBits fill m of
        None \<Rightarrow> None
      | Some row \<Rightarrow> Permute_apply_half a data (take (batch_size a 4 div 2) row))"

text \<open>\<open>Filter<T, A, 8>::apply\<close>: \<open>genericPermute(data, byteSetBits[mask])\<close>.\<close>

definition Filter8 :: "(nat \<Rightarrow> nat \<Rightarrow> int) \<Rightarrow> 'a::zero batch \<Rightarrow> int \<Rightarrow> 'a batch option" where
  "Filter8 fill data m =
     (case byteSetBits fill m of
        None \<Rightarrow> None
      | Some row \<Rightarrow> genericPermute data row)"

text \<open>The lanes a mask selects, in ascending lane order, and \<open>__builtin_popcount\<close>.\<close>

definition selected :: "'a list \<Rightarrow> int \<Rightarrow> 'a list" where
  "selected data m = map (\<lambda>i. data ! i) (filter (bit m) [0..<length data])"

definition popcount :: "int \<Rightarrow> nat" where
  "popcount m = length (filter (bit m) [0..<32])"

text \<open>The entries of a row past the offsets are lane numbers of a batch of \<open>N\<close> lanes.\<close>

definition fill_in_lanes :: "(nat \<Rightarrow> nat \<Rightarrow> int) \<Rightarrow> int \<Rightarrow> nat \<Rightarrow> bool" where
  "fill_in_lanes fill m N = (\<forall>j < N. 0 \<le> fill (nat m) j \<and> fill (nat m) j < int N)"

declare Filter2_loop.simps [simp del]

lemma Filter2_loop_Some:
  assumes "length result = length data" "write_ptr \<le> i" "i \<le> length data"
  shows "Filter2_loop data m i result write_ptr =
         Some (take write_ptr result
               @ map (\<lambda>k. data ! k) (filter (bit m) [i..<length data])
               @ drop (write_ptr + length (filter (bit m) [i..<length data])) result)"
  using assms
proof (induction "length data - i" arbitrary: i result write_ptr)
  case 0
  then show ?case by (subst Filter2_loop.simps) simp
next
  case (Suc d)
  then have lt: "i < length data" by simp
  then have upt: "[i..<length data] = i # [Suc i..<length data]" by (simp add: upt_conv_Cons)
  show ?case
  proof (cases "bit m i")
    case True
    let ?res = "result[write_ptr := data ! i]"
    have "Filter2_loop data m i result write_ptr = Filter2_loop data m (Suc i) ?res (Suc write_ptr)"
      using lt True Suc.prems by (subst Filter2_loop.simps) (simp add: and_exp_eq_0_iff_not_bit)
    also have "\<dots> = Some (take (Suc write_ptr) ?res
               @ map (\<lambda>k. data ! k) (filter (bit m) [Suc i..<length data])
               @ drop (Suc write_ptr + length (filter (bit m) [Suc i..<length data])) ?res)"
      using Suc lt by (intro Suc.hyps(1)) auto
    also have "take (Suc write_ptr) ?res = take write_ptr result @ [data ! i]"
      using lt Suc.prems by (simp add: take_Suc_conv_app_nth)
    also have "drop (Suc write_ptr + length (filter (bit m) [Suc i..<length data])) ?res
        = drop (Suc write_ptr + length (filter (bit m) [Suc i..<length data])) result"
      by simp
    finally show ?thesis using True by (simp add: upt)
  next
    case False
    have "Filter2_loop data m i result write_ptr = Filter2_loop data m (Suc i) result write_ptr"
      using lt False by (subst Filter2_loop.simps) (simp add: and_exp_eq_0_iff_not_bit)
    also have "\<dots> = Some (take write_ptr result
               @ map (\<lambda>k. data ! k) (filter (bit m) [Suc i..<length data])
               @ drop (write_ptr + length (filter (bit m) [Suc i..<length data])) result)"
      using Suc lt by (intro Suc.hyps(1)) auto
    finally show ?thesis using False by (simp add: upt)
  qed
qed

lemma length_selected_le: "length (selected data m) \<le> length data"
  using length_filter_le [of "bit m" "[0..<length data]"] by (simp add: selected_def)

lemma Filter2_Some:
  "Filter2 data m =
     Some (selected data m @ replicate (length data - length (selected data m)) 0)"
  using Filter2_loop_Some [of "replicate (length data) 0" data 0 0 m]
  by (simp add: Filter2_def selected_def)


lemma not_bit_above:
  assumes "0 \<le> (m::int)" "m < 2 ^ N" "N \<le> k"
  shows "\<not> bit m k"
proof -
  have "m < 2 ^ k"
    using assms(2,3) by (meson less_le_trans one_le_numeral power_increasing)
  then have "take_bit k m = m" using assms(1) by (simp add: take_bit_int_eq_self)
  then show ?thesis by (metis bit_take_bit_iff less_irrefl)
qed

lemma filter_bit_upt:
  assumes "0 \<le> (m::int)" "m < 2 ^ N" "N \<le> M"
  shows "filter (bit m) [0..<M] = filter (bit m) [0..<N]"
proof -
  have "[0..<M] = [0..<N] @ [N..<M]"
    using assms(3) by (metis le_add_diff_inverse upt_add_eq_append zero_le)
  moreover have "filter (bit m) [N..<M] = []"
    using not_bit_above [OF assms(1,2)] by (auto simp: filter_empty_conv)
  ultimately show ?thesis by simp
qed

lemma popcount_selected:
  assumes "0 \<le> m" "m < 2 ^ length data" "length data \<le> 32"
  shows "popcount m = length (selected data m)"
  using filter_bit_upt [OF assms] by (simp add: popcount_def selected_def)

lemma setBitOffsets_mask:
  assumes "0 \<le> m" "m < 2 ^ N" "N \<le> 8"
  shows "setBitOffsets (nat m) = map int (filter (bit m) [0..<N])"
proof -
  have "bit (nat m) = bit m" using assms(1) by (auto simp: bit_nat_iff)
  then show ?thesis using filter_bit_upt [OF assms] by (simp add: setBitOffsets_def)
qed

lemma byteSetBits_row_length: "length (byteSetBits_row fill b) = 8"
proof -
  have "length (setBitOffsets b) \<le> 8"
    using length_filter_le [of "bit b" "[0..<8]"] by (simp add: setBitOffsets_def)
  then show ?thesis by (simp add: byteSetBits_row_def)
qed

text \<open>The row of a mask of \<open>N \<le> 8\<close> lanes: lane numbers in its first \<open>N\<close> entries, the
  selected lanes first.\<close>

lemma byteSetBits_row_mask:
  assumes "0 \<le> m" "m < 2 ^ N" "N \<le> 8" "fill_in_lanes fill m N"
  shows "byteSetBits fill m = Some (byteSetBits_row fill (nat m))"
    and "\<And>k. k < N \<Longrightarrow> 0 \<le> byteSetBits_row fill (nat m) ! k
                       \<and> nat (byteSetBits_row fill (nat m) ! k) < N"
    and "\<And>k. k < length (filter (bit m) [0..<N]) \<Longrightarrow>
           nat (byteSetBits_row fill (nat m) ! k) = filter (bit m) [0..<N] ! k"
proof -
  let ?sel = "filter (bit m) [0..<N]"
  let ?row = "byteSetBits_row fill (nat m)"
  have "(2::int) ^ N \<le> 2 ^ 8" using assms(3) by (intro power_increasing) simp_all
  then show "byteSetBits fill m = Some ?row"
    using assms(1,2) by (simp add: byteSetBits_def)
  have offs: "setBitOffsets (nat m) = map int ?sel"
    by (rule setBitOffsets_mask [OF assms(1-3)])
  have len: "length ?sel \<le> N"
    using length_filter_le [of "bit m" "[0..<N]"] by simp
  have row: "?row = map int ?sel @ map (fill (nat m)) [length ?sel..<8]"
    by (simp add: byteSetBits_row_def offs)
  have low: "?row ! k = int (?sel ! k)" if "k < length ?sel" for k
    using that by (simp add: row nth_append)
  have high: "?row ! k = fill (nat m) k" if "length ?sel \<le> k" "k < N" for k
    using that assms(3) by (simp add: row nth_append)
  have sel_lt: "?sel ! k < N" if "k < length ?sel" for k
  proof -
    have "?sel ! k \<in> set ?sel" using that by (rule nth_mem)
    then show ?thesis by simp
  qed
  show "0 \<le> ?row ! k \<and> nat (?row ! k) < N" if "k < N" for k
  proof (cases "k < length ?sel")
    case True
    then show ?thesis using low sel_lt by simp
  next
    case False
    then have "?row ! k = fill (nat m) k" using high that by simp
    then show ?thesis using assms(4) that by (simp add: fill_in_lanes_def nat_less_iff)
  qed
  show "nat (?row ! k) = ?sel ! k" if "k < length ?sel" for k
    using low that by simp
qed

text \<open>A batch whose lane \<open>k\<close> is lane \<open>row[k]\<close> of the data starts with the selected lanes.\<close>

lemma take_selected:
  assumes "0 \<le> m" "m < 2 ^ length data" "length data \<le> 8"
    "fill_in_lanes fill m (length data)"
  shows "take (popcount m) (map (\<lambda>k. data ! nat (byteSetBits_row fill (nat m) ! k)) [0..<length data])
         = selected data m"
proof -
  let ?N = "length data"
  let ?sel = "filter (bit m) [0..<?N]"
  have pop: "popcount m = length ?sel"
    using popcount_selected [OF assms(1,2)] assms(3) by (simp add: selected_def)
  have len: "length ?sel \<le> ?N"
    using length_filter_le [of "bit m" "[0..<?N]"] by simp
  have "take (popcount m) (map (\<lambda>k. data ! nat (byteSetBits_row fill (nat m) ! k)) [0..<?N])
      = map (\<lambda>k. data ! nat (byteSetBits_row fill (nat m) ! k)) [0..<length ?sel]"
    using len by (simp add: pop take_map)
  also have "\<dots> = map (\<lambda>k. data ! (?sel ! k)) [0..<length ?sel]"
    by (rule map_cong) (simp_all add: byteSetBits_row_mask(3) [OF assms])
  also have "\<dots> = map (\<lambda>i. data ! i) (map (\<lambda>k. ?sel ! k) [0..<length ?sel])"
    by simp
  also have "\<dots> = map (\<lambda>i. data ! i) ?sel"
    by (simp only: map_nth)
  finally show ?thesis by (simp add: selected_def)
qed

lemma Filter4_Some:
  assumes "0 \<le> m" "m < 2 ^ length data" "length data = batch_size a 4"
    "fill_in_lanes fill m (length data)"
  shows "Filter4 fill a data m =
         Some (map (\<lambda>k. data ! nat (byteSetBits_row fill (nat m) ! k)) [0..<length data])"
proof -
  let ?row = "byteSetBits_row fill (nat m)"
  have N8: "length data \<le> 8" using assms(3) by (cases a) (simp_all add: batch_size_def)
  note row = byteSetBits_row_mask [OF assms(1,2) N8 assms(4)]
  let ?idx = "take (length data) ?row"
  have len: "length ?idx = length data" using N8 by (simp add: byteSetBits_row_length)
  have "genericPermute data ?idx = Some (map (permute_lane data ?idx) [0..<length data])"
    using row(2) len by (intro genericPermute_Some) auto
  moreover have "map (permute_lane data ?idx) [0..<length data]
      = map (\<lambda>k. data ! nat (?row ! k)) [0..<length data]"
    by (rule map_cong) (simp_all add: permute_lane_nonneg row(2))
  ultimately show ?thesis
    using len assms(3) by (simp add: Filter4_def row(1) Permute_apply_def genericPermute_batch_def)
qed

lemma Filter4_half_Some:
  assumes "0 \<le> m" "m < 2 ^ length data" "length data = batch_size a 4 div 2"
    "fill_in_lanes fill m (length data)"
  shows "Filter4_half fill a data m =
         Some (map (\<lambda>k. data ! nat (byteSetBits_row fill (nat m) ! k)) [0..<length data])"
proof -
  let ?row = "byteSetBits_row fill (nat m)"
  have N8: "length data \<le> 8" using assms(3) by (cases a) (simp_all add: batch_size_def)
  note row = byteSetBits_row_mask [OF assms(1,2) N8 assms(4)]
  let ?idx = "take (length data) ?row"
  have len: "length ?idx = length data" using N8 by (simp add: byteSetBits_row_length)
  have full: "genericPermute_batch data ?idx
      = Some (map (\<lambda>k. data ! nat (?row ! k)) [0..<length data])"
  proof -
    have "genericPermute data ?idx = Some (map (permute_lane data ?idx) [0..<length data])"
      using row(2) len by (intro genericPermute_Some) auto
    moreover have "map (permute_lane data ?idx) [0..<length data]
        = map (\<lambda>k. data ! nat (?row ! k)) [0..<length data]"
      by (rule map_cong) (simp_all add: permute_lane_nonneg row(2))
    ultimately show ?thesis using len by (simp add: genericPermute_batch_def)
  qed
  have b64: "genericPermute_Batch64 data ?idx
      = Some (map (\<lambda>k. data ! nat (?row ! k)) [0..<length data])"
  proof -
    have "genericPermute_Batch64 data ?idx
        = Some (map (\<lambda>k. data ! nat (?idx ! k)) [0..<length ?idx])"
      using row(2) len by (intro genericPermute_Batch64_Some) auto
    then show ?thesis using len by simp
  qed
  show ?thesis
    using full b64 assms(3) by (cases a) (simp_all add: Filter4_half_def row(1))
qed

lemma Filter8_Some:
  assumes "0 \<le> m" "m < 2 ^ length data" "length data = batch_size a 8"
    "fill_in_lanes fill m (length data)"
  shows "Filter8 fill data m =
         Some (map (\<lambda>k. data ! nat (byteSetBits_row fill (nat m) ! k)) [0..<length data])"
proof -
  let ?row = "byteSetBits_row fill (nat m)"
  have N8: "length data \<le> 8" using assms(3) by (cases a) (simp_all add: batch_size_def)
  note row = byteSetBits_row_mask [OF assms(1,2) N8 assms(4)]
  have "genericPermute data ?row = Some (map (permute_lane data ?row) [0..<length data])"
    using row(2) N8 by (intro genericPermute_Some) (auto simp: byteSetBits_row_length)
  moreover have "map (permute_lane data ?row) [0..<length data]
      = map (\<lambda>k. data ! nat (?row ! k)) [0..<length data]"
    by (rule map_cong) (simp_all add: permute_lane_nonneg row(2))
  ultimately show ?thesis by (simp add: Filter8_def row(1))
qed

text \<open>
  C1. For a mask \<open>m\<close> with bits only in \<open>[0, N)\<close>, \<open>N\<close> the lane count of \<open>data\<close>, every
  variant of \<open>filter\<close> returns a batch of \<open>N\<close> lanes whose first \<open>popcount(m)\<close> lanes are the
  lanes of \<open>data\<close> whose bit is set in \<open>m\<close>, in ascending lane order: the write-pointer walk
  for 2-byte elements, and the table-driven permutes for 4-byte elements (full and half
  batches) and for 8-byte elements, whose rows hold lane numbers after the offsets.
\<close>

theorem Filter_left_packed:
  assumes "0 \<le> m" "m < 2 ^ length data"
  shows "(length data = batch_size a 2 \<longrightarrow>
            (\<exists>r. Filter2 data m = Some r \<and> length r = length data
                 \<and> take (popcount m) r = selected data m))
    \<and> (length data = batch_size a 4 \<and> fill_in_lanes fill m (length data) \<longrightarrow>
            (\<exists>r. Filter4 fill a data m = Some r \<and> length r = length data
                 \<and> take (popcount m) r = selected data m))
    \<and> (length data = batch_size a 4 div 2 \<and> fill_in_lanes fill m (length data) \<longrightarrow>
            (\<exists>r. Filter4_half fill a data m = Some r \<and> length r = length data
                 \<and> take (popcount m) r = selected data m))
    \<and> (length data = batch_size a 8 \<and> fill_in_lanes fill m (length data) \<longrightarrow>
            (\<exists>r. Filter8 fill data m = Some r \<and> length r = length data
                 \<and> take (popcount m) r = selected data m))
    \<and> (length data \<le> 32 \<longrightarrow> popcount m = length (selected data m))"
proof -
  have two: "\<exists>r. Filter2 data m = Some r \<and> length r = length data
                 \<and> take (popcount m) r = selected data m"
    if "length data = batch_size a 2"
  proof -
    have "length data \<le> 32" using that by (cases a) (simp_all add: batch_size_def)
    then have "popcount m = length (selected data m)"
      by (rule popcount_selected [OF assms])
    then show ?thesis
      using length_selected_le [of data m] by (simp add: Filter2_Some)
  qed
  have four: "\<exists>r. Filter4 fill a data m = Some r \<and> length r = length data
                 \<and> take (popcount m) r = selected data m"
    if "length data = batch_size a 4" "fill_in_lanes fill m (length data)"
  proof -
    have "length data \<le> 8" using that(1) by (cases a) (simp_all add: batch_size_def)
    then show ?thesis
      using Filter4_Some [OF assms that] take_selected [OF assms _ that(2)] by simp
  qed
  have half: "\<exists>r. Filter4_half fill a data m = Some r \<and> length r = length data
                 \<and> take (popcount m) r = selected data m"
    if "length data = batch_size a 4 div 2" "fill_in_lanes fill m (length data)"
  proof -
    have "length data \<le> 8" using that(1) by (cases a) (simp_all add: batch_size_def)
    then show ?thesis
      using Filter4_half_Some [OF assms that] take_selected [OF assms _ that(2)] by simp
  qed
  have eight: "\<exists>r. Filter8 fill data m = Some r \<and> length r = length data
                 \<and> take (popcount m) r = selected data m"
    if "length data = batch_size a 8" "fill_in_lanes fill m (length data)"
  proof -
    have "length data \<le> 8" using that(1) by (cases a) (simp_all add: batch_size_def)
    then show ?thesis
      using Filter8_Some [OF assms that] take_selected [OF assms _ that(2)] by simp
  qed
  show ?thesis
    using two four half eight popcount_selected [OF assms] by blast
qed


theorem Filter_left_packed_witness:
  "(\<exists>r. Filter2 [10, 20, 30, 40, 50, 60, 70, 80 :: int] 0xB1 = Some r \<and> length r = 8
        \<and> take 4 r = [10, 50, 60, 80])
   \<and> (\<exists>r. Filter4 (\<lambda>b. int) generic32 [10, 20, 30, 40, 50, 60, 70, 80 :: int] 0xB1 = Some r
        \<and> length r = 8 \<and> take 4 r = [10, 50, 60, 80])
   \<and> (\<exists>r. Filter4_half (\<lambda>b. int) generic16 [10, 20 :: int] 2 = Some r
        \<and> length r = 2 \<and> take 1 r = [20])
   \<and> (\<exists>r. Filter8 (\<lambda>b. int) [10, 20, 30, 40 :: int] 0xA = Some r
        \<and> length r = 4 \<and> take 2 r = [20, 40])
   \<and> popcount 0xB1 = 4"
proof -
  let ?d8 = "[10, 20, 30, 40, 50, 60, 70, 80 :: int]"
  have pop: "popcount 0xB1 = 4" "popcount 2 = 1" "popcount 0xA = 2"
    by code_simp+
  have sel: "selected ?d8 0xB1 = [10, 50, 60, 80]" "selected [10, 20 :: int] 2 = [20]"
    "selected [10, 20, 30, 40 :: int] 0xA = [20, 40]"
    by code_simp+
  have m8: "(0::int) \<le> 0xB1" "(0xB1::int) < 2 ^ length ?d8" by simp_all
  have m2: "(0::int) \<le> 2" "(2::int) < 2 ^ length [10, 20 :: int]" by simp_all
  have m4: "(0::int) \<le> 0xA" "(0xA::int) < 2 ^ length [10, 20, 30, 40 :: int]" by simp_all
  have l8: "length ?d8 = 8" and l2: "length [10, 20 :: int] = 2"
    and l4: "length [10, 20, 30, 40 :: int] = 4" by simp_all
  have two: "\<exists>r. Filter2 ?d8 0xB1 = Some r \<and> length r = 8 \<and> take 4 r = [10, 50, 60, 80]"
  proof -
    have "length ?d8 = batch_size generic16 2" by (simp add: batch_size_def)
    with Filter_left_packed [OF m8, of generic16 "\<lambda>b. int"]
    have "\<exists>r. Filter2 ?d8 0xB1 = Some r \<and> length r = length ?d8
        \<and> take (popcount 0xB1) r = selected ?d8 0xB1" by blast
    then show ?thesis unfolding pop sel l8 .
  qed
  have four: "\<exists>r. Filter4 (\<lambda>b. int) generic32 ?d8 0xB1 = Some r \<and> length r = 8
      \<and> take 4 r = [10, 50, 60, 80]"
  proof -
    have "length ?d8 = batch_size generic32 4 \<and> fill_in_lanes (\<lambda>b. int) 0xB1 (length ?d8)"
      by (simp add: batch_size_def fill_in_lanes_def)
    with Filter_left_packed [OF m8, of generic32 "\<lambda>b. int"]
    have "\<exists>r. Filter4 (\<lambda>b. int) generic32 ?d8 0xB1 = Some r \<and> length r = length ?d8
        \<and> take (popcount 0xB1) r = selected ?d8 0xB1" by blast
    then show ?thesis unfolding pop sel l8 .
  qed
  have half: "\<exists>r. Filter4_half (\<lambda>b. int) generic16 [10, 20 :: int] 2 = Some r \<and> length r = 2
      \<and> take 1 r = [20]"
  proof -
    have "length [10, 20 :: int] = batch_size generic16 4 div 2
        \<and> fill_in_lanes (\<lambda>b. int) 2 (length [10, 20 :: int])"
      by (simp add: batch_size_def fill_in_lanes_def)
    with Filter_left_packed [OF m2, of generic16 "\<lambda>b. int"]
    have "\<exists>r. Filter4_half (\<lambda>b. int) generic16 [10, 20 :: int] 2 = Some r
        \<and> length r = length [10, 20 :: int]
        \<and> take (popcount 2) r = selected [10, 20 :: int] 2" by blast
    then show ?thesis unfolding pop sel l2 .
  qed
  have eight: "\<exists>r. Filter8 (\<lambda>b. int) [10, 20, 30, 40 :: int] 0xA = Some r \<and> length r = 4
      \<and> take 2 r = [20, 40]"
  proof -
    have "length [10, 20, 30, 40 :: int] = batch_size generic32 8
        \<and> fill_in_lanes (\<lambda>b. int) 0xA (length [10, 20, 30, 40 :: int])"
      by (simp add: batch_size_def fill_in_lanes_def)
    with Filter_left_packed [OF m4, of generic32 "\<lambda>b. int"]
    have "\<exists>r. Filter8 (\<lambda>b. int) [10, 20, 30, 40 :: int] 0xA = Some r
        \<and> length r = length [10, 20, 30, 40 :: int]
        \<and> take (popcount 0xA) r = selected [10, 20, 30, 40 :: int] 0xA" by blast
    then show ?thesis unfolding pop sel l4 .
  qed
  show ?thesis using two four half eight pop(1) by blast
qed

lemma length_selected_le_popcount:
  assumes "length data \<le> 32"
  shows "length (selected data m) \<le> popcount m"
proof -
  have "[0..<32] = [0..<length data] @ [length data..<32]"
    using assms by (metis le_add_diff_inverse upt_add_eq_append zero_le)
  then show ?thesis by (simp add: selected_def popcount_def)
qed

text \<open>
  C10. For 2-byte elements the lanes of the result of \<open>filter\<close> from index \<open>popcount(m)\<close> on
  are zero, whatever the mask: the result batch is created as \<open>result(0)\<close> and only the
  selected lanes are written over it.
\<close>

theorem Filter2_trailing_zero:
  assumes "length data = batch_size a 2"
  shows "\<exists>r. Filter2 data m = Some r \<and> length r = length data
     \<and> (\<forall>j. popcount m \<le> j \<and> j < length data \<longrightarrow> r ! j = 0)"
proof -
  have "length data \<le> 32" using assms by (cases a) (simp_all add: batch_size_def)
  then have le: "length (selected data m) \<le> popcount m"
    by (rule length_selected_le_popcount)
  show ?thesis
    using le length_selected_le [of data m] by (auto simp: Filter2_Some nth_append)
qed

theorem Filter2_trailing_zero_witness:
  "\<exists>r. Filter2 [10, 20, 30, 40, 50, 60, 70, 80 :: int] 0xB1 = Some r \<and> length r = 8
     \<and> r ! 4 = 0 \<and> r ! 5 = 0 \<and> r ! 6 = 0 \<and> r ! 7 = 0"
proof -
  have "length [10, 20, 30, 40, 50, 60, 70, 80 :: int] = batch_size generic16 2"
    by (simp add: batch_size_def)
  from Filter2_trailing_zero [OF this, of "0xB1"]
  obtain r where r: "Filter2 [10, 20, 30, 40, 50, 60, 70, 80 :: int] 0xB1 = Some r"
    "length r = 8" "\<forall>j. popcount 0xB1 \<le> j \<and> j < 8 \<longrightarrow> r ! j = 0"
    by auto
  have "popcount 0xB1 = 4" by code_simp
  then have "r ! 4 = 0 \<and> r ! 5 = 0 \<and> r ! 6 = 0 \<and> r ! 7 = 0" using r(3) by simp
  then show ?thesis using r(1,2) by simp
qed

subsection \<open>Masked gather\<close>
















subsection \<open>Vectorized copy and fill (\<open>simd::memcpy\<close>, \<open>simd::memset\<close>)\<close>

text \<open>
  Memory is a list of bytes and a pointer an offset into it; a load or a store that leaves
  the buffer is \<open>None\<close>. The byte count \<open>bytes\<close> is an \<open>int32_t\<close>: a 32-bit word read by
  \<open>sint\<close>. In \<open>bytes >= sizeof(T)\<close> it is converted to \<open>size_t\<close> (its value modulo
  \<open>2^64\<close>), and \<open>bytes -= sizeof(T)\<close> wraps to 32 bits.
\<close>

type_synonym byte = "8 word"

definition size_t_of :: "32 word \<Rightarrow> nat" where
  "size_t_of b = nat (sint b mod 2 ^ 64)"

definition load_bytes :: "byte list \<Rightarrow> nat \<Rightarrow> nat \<Rightarrow> byte list option" where
  "load_bytes mem p n = (if p + n \<le> length mem then Some (take n (drop p mem)) else None)"

definition store_bytes :: "byte list \<Rightarrow> nat \<Rightarrow> byte list \<Rightarrow> byte list option" where
  "store_bytes mem p bs =
     (if p + length bs \<le> length mem
      then Some (take p mem @ bs @ drop (p + length bs) mem) else None)"

text \<open>Modelled from the spec: \<open>batchByteSize(arch)\<close> is declared outside this file; it is the
  byte width of the widest vector batch, an \<open>int32_t\<close>.\<close>

definition batchByteSize :: "arch \<Rightarrow> nat" where
  "batchByteSize a = arch_size a"

text \<open>The state of a copy: the destination memory, the offsets \<open>to\<close> and \<open>from\<close>, and
  \<open>bytes\<close>. The source memory is only read.\<close>

type_synonym copy_state = "byte list \<times> nat \<times> nat \<times> 32 word"

text \<open>\<open>CopyWord<T, A>::apply\<close> for a \<open>T\<close> of \<open>sz\<close> bytes, and \<open>copyNextWord<T, A>\<close>, which
  returns false when \<open>bytes\<close> went to 0.\<close>

definition CopyWord :: "nat \<Rightarrow> byte list \<Rightarrow> byte list \<Rightarrow> nat \<Rightarrow> nat \<Rightarrow> byte list option" where
  "CopyWord sz src dst to_p from_p =
     (case load_bytes src from_p sz of
        None \<Rightarrow> None
      | Some bs \<Rightarrow> store_bytes dst to_p bs)"

definition copyNextWord :: "nat \<Rightarrow> byte list \<Rightarrow> copy_state \<Rightarrow> (bool \<times> copy_state) option" where
  "copyNextWord sz src st =
     (case st of (dst, to_p, from_p, bytes) \<Rightarrow>
        if sz \<le> size_t_of bytes then
          (case CopyWord sz src dst to_p from_p of
             None \<Rightarrow> None
           | Some dst' \<Rightarrow>
               if bytes - of_nat sz = 0
               then Some (False, (dst', to_p, from_p, bytes - of_nat sz))
               else Some (True, (dst', to_p + sz, from_p + sz, bytes - of_nat sz)))
        else Some (True, st))"

text \<open>\<open>while (bytes >= batchByteSize(arch))\<close>, a comparison of two \<open>int32_t\<close>, and
  \<open>while (bytes >= sizeof(int64_t))\<close>, a comparison in \<open>size_t\<close>. Either loop returns false
  when \<open>memcpy\<close> returns from inside it.\<close>

function memcpy_batches :: "arch \<Rightarrow> byte list \<Rightarrow> copy_state \<Rightarrow> (bool \<times> copy_state) option" where
  "memcpy_batches a src (dst, to_p, from_p, bytes) =
     (if int (batchByteSize a) \<le> sint bytes then
        (case copyNextWord (batchByteSize a) src (dst, to_p, from_p, bytes) of
           None \<Rightarrow> None
         | Some (continue, st') \<Rightarrow>
             if continue then memcpy_batches a src st' else Some (False, st'))
      else Some (True, (dst, to_p, from_p, bytes)))"
  by pat_completeness auto

lemma sint32_alt:
  "sint (b :: 32 word) = (if uint b < 2 ^ 31 then uint b else uint b - 2 ^ 32)"
proof -
  have lt: "uint b < 2 ^ 32" using uint_lt2p [of b] by simp
  have ge: "0 \<le> uint b" by simp
  have "sint b = (uint b + 2 ^ 31) mod 2 ^ 32 - 2 ^ 31"
    by (simp add: sint_uint signed_take_bit_eq_take_bit_shift take_bit_eq_mod)
  moreover have "(uint b + 2 ^ 31) mod 2 ^ 32 = uint b + 2 ^ 31" if "uint b < 2 ^ 31"
    using that ge by (intro mod_pos_pos_trivial) simp_all
  moreover have "(uint b + 2 ^ 31) mod 2 ^ 32 = uint b + 2 ^ 31 - 2 ^ 32" if "\<not> uint b < 2 ^ 31"
  proof -
    have "(uint b + 2 ^ 31) mod 2 ^ 32 = (uint b + 2 ^ 31 - 2 ^ 32) mod 2 ^ 32"
      by (metis diff_add_cancel mod_add_self2)
    also have "\<dots> = uint b + 2 ^ 31 - 2 ^ 32"
      using that lt by (intro mod_pos_pos_trivial) simp_all
    finally show ?thesis .
  qed
  ultimately show ?thesis by auto
qed

lemma sint_nonneg_uint:
  assumes "0 \<le> sint (b :: 32 word)"
  shows "uint b < 2 ^ 31" and "sint b = uint b"
proof -
  have "uint b < 2 ^ 32" using uint_lt2p [of b] by simp
  then show "uint b < 2 ^ 31" using assms by (simp add: sint32_alt split: if_splits)
  then show "sint b = uint b" by (simp add: sint32_alt)
qed

lemma size_t_of_nonneg:
  assumes "0 \<le> sint b"
  shows "size_t_of b = unat b"
proof -
  have "uint b < 2 ^ 64" using sint_nonneg_uint(1) [OF assms] by simp
  then have "uint b mod 2 ^ 64 = uint b" by (intro mod_pos_pos_trivial) simp_all
  then show ?thesis by (simp add: size_t_of_def sint_nonneg_uint(2) [OF assms])
qed

lemma sint_nonneg_unat: "0 \<le> sint (b :: 32 word) \<Longrightarrow> sint b = int (unat b)"
  by (simp add: sint_nonneg_uint(2))

lemma unat_sub_of_nat:
  "n \<le> unat (b :: 32 word) \<Longrightarrow> unat (b - of_nat n) = unat b - n"
  by (simp add: le_unat_uoi unat_sub word_le_nat_alt)

lemma sint_sub_nonneg:
  assumes "0 \<le> sint (b :: 32 word)" "n \<le> unat b"
  shows "0 \<le> sint (b - of_nat n)"
proof -
  have "unat (b - of_nat n) \<le> unat b"
    using unat_sub_of_nat [OF assms(2)] by simp
  then have "int (unat (b - of_nat n)) \<le> int (unat b)" by (simp only: of_nat_le_iff)
  then have "uint (b - of_nat n) \<le> uint b" by (simp only: uint_nat)
  then have "uint (b - of_nat n) < 2 ^ 31"
    using sint_nonneg_uint(1) [OF assms(1)] by linarith
  then show ?thesis by (simp add: sint32_alt)
qed

lemma load_bytes_length: "load_bytes mem p n = Some bs \<Longrightarrow> length bs = n"
  by (auto simp: load_bytes_def split: if_splits)

lemma store_bytes_length: "store_bytes mem p bs = Some mem' \<Longrightarrow> length mem' = length mem"
  by (auto simp: store_bytes_def split: if_splits)

text \<open>A word that was copied and left bytes to copy moved \<open>to\<close> forward inside the
  destination.\<close>

lemma copyNextWord_advances:
  assumes "copyNextWord sz src (dst, to_p, from_p, bytes) = Some (True, (dst', to_p', from_p', bytes'))"
    and "sz \<le> size_t_of bytes" "0 < sz"
  shows "length dst' = length dst \<and> to_p' = to_p + sz \<and> to_p + sz \<le> length dst"
  using assms
  by (auto simp: copyNextWord_def CopyWord_def store_bytes_def load_bytes_def
      split: option.splits if_splits)

lemma batchByteSize_pos: "0 < batchByteSize a"
  by (cases a) (simp_all add: batchByteSize_def)

lemma copyNextWord_measure:
  assumes "copyNextWord sz src (dst, to_p, from_p, bytes) = Some (True, st')"
    and "sz \<le> size_t_of bytes" "0 < sz"
  shows "length (fst st') - fst (snd st') < length dst - to_p"
proof -
  obtain dst' to_p' from_p' bytes' where st': "st' = (dst', to_p', from_p', bytes')"
    by (cases st') auto
  show ?thesis
    using copyNextWord_advances [OF assms(1) [unfolded st'] assms(2,3)] assms(3)
    by (auto simp: st')
qed

lemma le_size_t_of: "int n \<le> sint bytes \<Longrightarrow> n \<le> size_t_of bytes"
proof -
  assume a: "int n \<le> sint bytes"
  then have nn: "0 \<le> sint bytes" by simp
  then have "sint bytes = int (unat bytes)" by (rule sint_nonneg_unat)
  with a have "int n \<le> int (unat bytes)" by simp
  then have "n \<le> unat bytes" by (simp only: of_nat_le_iff)
  then show ?thesis by (simp add: size_t_of_nonneg [OF nn])
qed

termination memcpy_batches
proof (relation "measure (\<lambda>(a, src, st). length (fst st) - fst (snd st))", goal_cases)
  case 1
  show ?case by simp
next
  case (2 a src dst to_p from_p bytes x2 x y)
  then have "copyNextWord (batchByteSize a) src (dst, to_p, from_p, bytes) = Some (True, y)"
    by simp
  from copyNextWord_measure [OF this le_size_t_of [OF 2(1)] batchByteSize_pos]
  show ?case by simp
qed

function memcpy_words :: "byte list \<Rightarrow> copy_state \<Rightarrow> (bool \<times> copy_state) option" where
  "memcpy_words src (dst, to_p, from_p, bytes) =
     (if 8 \<le> size_t_of bytes then
        (case copyNextWord 8 src (dst, to_p, from_p, bytes) of
           None \<Rightarrow> None
         | Some (continue, st') \<Rightarrow>
             if continue then memcpy_words src st' else Some (False, st'))
      else Some (True, (dst, to_p, from_p, bytes)))"
  by pat_completeness auto
termination
proof (relation "measure (\<lambda>(src, st). length (fst st) - fst (snd st))", goal_cases)
  case 1
  show ?case by simp
next
  case (2 src dst to_p from_p bytes x2 x y)
  then have "copyNextWord 8 src (dst, to_p, from_p, bytes) = Some (True, y)"
    by simp
  from copyNextWord_measure [OF this 2(1)]
  show ?case by simp
qed

text \<open>\<open>if (!copyNextWord<T, A>(to, from, bytes)) return;\<close>: the rest of \<open>memcpy\<close> runs on the
  state after a step that returned true.\<close>

definition unless_done ::
  "(bool \<times> byte list \<times> 's) option \<Rightarrow> (byte list \<times> 's \<Rightarrow> byte list option)
     \<Rightarrow> byte list option" where
  "unless_done r rest =
     (case r of
        None \<Rightarrow> None
      | Some (continue, st) \<Rightarrow> if continue then rest st else Some (fst st))"

definition memcpy :: "arch \<Rightarrow> byte list \<Rightarrow> nat \<Rightarrow> byte list \<Rightarrow> nat \<Rightarrow> 32 word \<Rightarrow> byte list option" where
  "memcpy a dst to_p src from_p bytes =
     unless_done (memcpy_batches a src (dst, to_p, from_p, bytes)) (\<lambda>st.
     unless_done (memcpy_words src st) (\<lambda>st.
     unless_done (copyNextWord 4 src st) (\<lambda>st.
     unless_done (copyNextWord 2 src st) (\<lambda>st.
     unless_done (copyNextWord 1 src st) (\<lambda>st. Some (fst st))))))"

text \<open>The naive copy, one byte at a time.\<close>

fun naive_memcpy :: "byte list \<Rightarrow> nat \<Rightarrow> byte list \<Rightarrow> nat \<Rightarrow> nat \<Rightarrow> byte list" where
  "naive_memcpy dst to_p src from_p 0 = dst"
| "naive_memcpy dst to_p src from_p (Suc n) =
     naive_memcpy (dst[to_p := src ! from_p]) (Suc to_p) src (Suc from_p) n"


text \<open>What a state still has to produce: the destination with the \<open>bytes\<close> bytes at
  \<open>from\<close> copied to \<open>to\<close>. A state is in bounds when \<open>bytes\<close> is not negative and both
  buffers hold \<open>bytes\<close> bytes from their offsets on.\<close>

definition cs_bytes :: "copy_state \<Rightarrow> nat" where
  "cs_bytes st = (case st of (dst, to_p, from_p, bytes) \<Rightarrow> unat bytes)"

definition expected :: "byte list \<Rightarrow> copy_state \<Rightarrow> byte list" where
  "expected src st =
     (case st of (dst, to_p, from_p, bytes) \<Rightarrow>
        take to_p dst @ take (unat bytes) (drop from_p src) @ drop (to_p + unat bytes) dst)"

definition in_bounds :: "byte list \<Rightarrow> copy_state \<Rightarrow> bool" where
  "in_bounds src st =
     (case st of (dst, to_p, from_p, bytes) \<Rightarrow>
        0 \<le> sint bytes \<and> to_p + unat bytes \<le> length dst \<and> from_p + unat bytes \<le> length src)"

text \<open>A step or a loop of \<open>memcpy\<close> from \<open>st0\<close> went well: it returned with the copy done, or
  it left a state in bounds with the same copy to do and fewer than \<open>B\<close> bytes.\<close>

definition continues ::
  "byte list \<Rightarrow> copy_state \<Rightarrow> nat \<Rightarrow> (bool \<times> copy_state) option \<Rightarrow> bool" where
  "continues src st0 B r =
     (case r of
        None \<Rightarrow> False
      | Some (c, st) \<Rightarrow>
          if c then in_bounds src st \<and> expected src st = expected src st0 \<and> cs_bytes st < B
          else fst st = expected src st0)"

lemma continues_True:
  "continues src st0 B (Some (True, st)) \<longleftrightarrow>
     in_bounds src st \<and> expected src st = expected src st0 \<and> cs_bytes st < B"
  by (simp add: continues_def)

lemma continues_False:
  "continues src st0 B (Some (False, st)) \<longleftrightarrow> fst st = expected src st0"
  by (simp add: continues_def)

lemma continues_same:
  "continues src st' B r \<Longrightarrow> expected src st' = expected src st \<Longrightarrow> continues src st B r"
  by (auto simp: continues_def split: option.splits)

lemma copyNextWord_skip:
  assumes "in_bounds src st" "cs_bytes st < sz"
  shows "copyNextWord sz src st = Some (True, st)"
proof -
  obtain dst to_p from_p bytes where st: "st = (dst, to_p, from_p, bytes)"
    by (cases st) auto
  have "0 \<le> sint bytes" using assms(1) by (simp add: st in_bounds_def)
  then have "size_t_of bytes = unat bytes" by (rule size_t_of_nonneg)
  then show ?thesis using assms(2) by (simp add: st copyNextWord_def cs_bytes_def)
qed

lemma copyNextWord_copy:
  assumes "in_bounds src st" "0 < sz" "sz \<le> cs_bytes st"
  shows "(\<exists>st'. copyNextWord sz src st = Some (True, st') \<and> in_bounds src st'
            \<and> expected src st' = expected src st \<and> cs_bytes st' = cs_bytes st - sz)
       \<or> (\<exists>st'. copyNextWord sz src st = Some (False, st') \<and> fst st' = expected src st)"
proof -
  obtain dst to_p from_p bytes where st: "st = (dst, to_p, from_p, bytes)"
    by (cases st) auto
  let ?n = "unat bytes"
  have nn: "0 \<le> sint bytes" and to_ok: "to_p + ?n \<le> length dst"
    and from_ok: "from_p + ?n \<le> length src"
    using assms(1) by (simp_all add: st in_bounds_def)
  have le: "sz \<le> ?n" using assms(3) by (simp add: st cs_bytes_def)
  have sz: "size_t_of bytes = ?n" using nn by (rule size_t_of_nonneg)
  let ?bs = "take sz (drop from_p src)"
  let ?dst = "take to_p dst @ ?bs @ drop (to_p + sz) dst"
  let ?bytes = "bytes - of_nat sz"
  have len_bs: "length ?bs = sz" using from_ok le by simp
  have copy: "CopyWord sz src dst to_p from_p = Some ?dst"
    using from_ok to_ok le by (simp add: CopyWord_def load_bytes_def store_bytes_def)
  have n': "unat ?bytes = ?n - sz" using le by (rule unat_sub_of_nat)
  have zero: "?bytes = 0 \<longleftrightarrow> ?n = sz"
    using n' le by (metis diff_is_0_eq le_antisym unat_eq_0)
  have split: "take ?n (drop from_p src) = ?bs @ take (?n - sz) (drop (from_p + sz) src)"
    using le by (metis add.commute drop_drop le_add_diff_inverse take_add)
  have cond: "sz \<le> size_t_of bytes" using le sz by simp
  have step: "copyNextWord sz src st =
      (if ?bytes = 0 then Some (False, (?dst, to_p, from_p, ?bytes))
       else Some (True, (?dst, to_p + sz, from_p + sz, ?bytes)))"
    using cond copy by (simp add: st copyNextWord_def)
  show ?thesis
  proof (cases "?n = sz")
    case True
    then have "copyNextWord sz src st = Some (False, (?dst, to_p, from_p, ?bytes))"
      using zero step by simp
    moreover have "fst (?dst, to_p, from_p, ?bytes) = expected src st"
      using True by (simp add: st expected_def)
    ultimately show ?thesis by blast
  next
    case False
    let ?st = "(?dst, to_p + sz, from_p + sz, ?bytes)"
    have res: "copyNextWord sz src st = Some (True, ?st)"
      using zero False step by simp
    have len_dst: "length ?dst = length dst" using to_ok le len_bs by simp
    have ok: "in_bounds src ?st"
      using sint_sub_nonneg [OF nn le] to_ok from_ok le len_dst
      by (simp add: in_bounds_def n')
    have tk: "take (to_p + sz) ?dst = take to_p dst @ ?bs"
      using to_ok le len_bs by simp
    have dr: "drop (to_p + sz + (?n - sz)) ?dst = drop (to_p + ?n) dst"
      using to_ok le len_bs by (simp add: add.commute)
    have ex: "expected src ?st = expected src st"
      using tk dr split by (simp add: expected_def st n')
    have "cs_bytes ?st = cs_bytes st - sz" by (simp add: cs_bytes_def n' st)
    with res ok ex show ?thesis by blast
  qed
qed

lemma copyNextWord_continues:
  assumes "in_bounds src st" "0 < sz" "cs_bytes st < 2 * sz"
  shows "continues src st sz (copyNextWord sz src st)"
proof (cases "sz \<le> cs_bytes st")
  case True
  from copyNextWord_copy [OF assms(1,2) True] show ?thesis
  proof (elim disjE exE conjE)
    fix st' assume "copyNextWord sz src st = Some (True, st')" "in_bounds src st'"
      "expected src st' = expected src st" "cs_bytes st' = cs_bytes st - sz"
    then show ?thesis using assms(3) True by (simp add: continues_True)
  next
    fix st' assume "copyNextWord sz src st = Some (False, st')" "fst st' = expected src st"
    then show ?thesis by (simp add: continues_False)
  qed
next
  case False
  then show ?thesis
    using copyNextWord_skip [of src st sz] assms(1) by (simp add: continues_True)
qed

text \<open>Both loops are the same loop over \<open>copyNextWord\<close>; \<open>loop\<close> is one unfolding of it.\<close>

lemma copy_loop_continues:
  assumes unfold: "\<And>st. in_bounds src st \<Longrightarrow>
      loop st = (if sz \<le> cs_bytes st
                 then (case copyNextWord sz src st of
                         None \<Rightarrow> None
                       | Some (c, st') \<Rightarrow> if c then loop st' else Some (False, st'))
                 else Some (True, st))"
    and "0 < sz" "in_bounds src st"
  shows "continues src st sz (loop st)"
  using assms(3)
proof (induction "cs_bytes st" arbitrary: st rule: less_induct)
  case less
  show ?case
  proof (cases "sz \<le> cs_bytes st")
    case False
    then show ?thesis using less.prems by (simp add: unfold continues_True)
  next
    case True
    from copyNextWord_copy [OF less.prems assms(2) True] show ?thesis
    proof (elim disjE exE conjE)
      fix st' assume step: "copyNextWord sz src st = Some (True, st')" and ok: "in_bounds src st'"
        and ex: "expected src st' = expected src st" and n: "cs_bytes st' = cs_bytes st - sz"
      have "cs_bytes st' < cs_bytes st" using n True assms(2) by simp
      then have "continues src st' sz (loop st')" using ok by (rule less.hyps)
      then have "continues src st sz (loop st')" using ex by (rule continues_same)
      moreover have "loop st = loop st'" using True step less.prems by (simp add: unfold)
      ultimately show ?thesis by simp
    next
      fix st' assume step: "copyNextWord sz src st = Some (False, st')"
        and "fst st' = expected src st"
      moreover have "loop st = Some (False, st')" using True step less.prems by (simp add: unfold)
      ultimately show ?thesis by (simp add: continues_False)
    qed
  qed
qed

lemma memcpy_batches_continues:
  assumes "in_bounds src st"
  shows "continues src st (batchByteSize a) (memcpy_batches a src st)"
proof (rule copy_loop_continues [OF _ batchByteSize_pos assms])
  fix st assume ok: "in_bounds src st"
  obtain dst to_p from_p bytes where st: "st = (dst, to_p, from_p, bytes)"
    by (cases st) auto
  have nn: "0 \<le> sint bytes" using ok by (simp add: st in_bounds_def)
  have "int (batchByteSize a) \<le> int (unat bytes) \<longleftrightarrow> batchByteSize a \<le> unat bytes"
    by (simp only: of_nat_le_iff)
  then have cond: "int (batchByteSize a) \<le> sint bytes \<longleftrightarrow> batchByteSize a \<le> cs_bytes st"
    by (simp only: sint_nonneg_unat [OF nn] st cs_bytes_def prod.case)
  show "memcpy_batches a src st =
      (if batchByteSize a \<le> cs_bytes st
       then (case copyNextWord (batchByteSize a) src st of
               None \<Rightarrow> None
             | Some (c, st') \<Rightarrow> if c then memcpy_batches a src st' else Some (False, st'))
       else Some (True, st))"
    unfolding cond [symmetric] by (simp add: st)
qed

lemma memcpy_words_continues:
  assumes "in_bounds src st"
  shows "continues src st 8 (memcpy_words src st)"
proof (rule copy_loop_continues [OF _ _ assms])
  show "0 < (8::nat)" by simp
next
  fix st assume ok: "in_bounds src st"
  obtain dst to_p from_p bytes where st: "st = (dst, to_p, from_p, bytes)"
    by (cases st) auto
  have nn: "0 \<le> sint bytes" using ok by (simp add: st in_bounds_def)
  have cond: "size_t_of bytes = cs_bytes st"
    by (simp add: size_t_of_nonneg [OF nn] st cs_bytes_def)
  show "memcpy_words src st =
      (if 8 \<le> cs_bytes st
       then (case copyNextWord 8 src st of
               None \<Rightarrow> None
             | Some (c, st') \<Rightarrow> if c then memcpy_words src st' else Some (False, st'))
       else Some (True, st))"
    unfolding cond [symmetric] by (simp add: st)
qed

lemma unless_done_continues:
  assumes "continues src st0 B r"
    and "\<And>st. in_bounds src st \<Longrightarrow> expected src st = expected src st0 \<Longrightarrow> cs_bytes st < B
           \<Longrightarrow> rest st = Some (expected src st0)"
  shows "unless_done r rest = Some (expected src st0)"
proof (cases r)
  case None
  then show ?thesis using assms(1) by (simp add: continues_def)
next
  case (Some p)
  obtain c st where p: "p = (c, st)" by (cases p) auto
  show ?thesis
  proof (cases c)
    case True
    then show ?thesis
      using assms Some p by (simp add: continues_True unless_done_def)
  next
    case False
    then show ?thesis
      using assms(1) Some p by (simp add: continues_False unless_done_def)
  qed
qed

lemma expected_done: "cs_bytes st = 0 \<Longrightarrow> expected src st = fst st"
  by (cases st) (simp add: expected_def cs_bytes_def)

lemma memcpy_tail1:
  assumes "in_bounds src st" "cs_bytes st < 2"
  shows "unless_done (copyNextWord 1 src st) (\<lambda>st. Some (fst st)) = Some (expected src st)"
proof -
  have "continues src st 1 (copyNextWord 1 src st)"
    using assms by (intro copyNextWord_continues) simp_all
  then show ?thesis
    by (rule unless_done_continues) (simp add: expected_done)
qed

lemma memcpy_tail2:
  assumes "in_bounds src st" "cs_bytes st < 4"
  shows "unless_done (copyNextWord 2 src st) (\<lambda>st.
         unless_done (copyNextWord 1 src st) (\<lambda>st. Some (fst st))) = Some (expected src st)"
proof -
  have "continues src st 2 (copyNextWord 2 src st)"
    using assms by (intro copyNextWord_continues) simp_all
  then show ?thesis
  proof (rule unless_done_continues)
    fix st' assume a: "in_bounds src st'" "expected src st' = expected src st" "cs_bytes st' < 2"
    show "unless_done (copyNextWord 1 src st') (\<lambda>st. Some (fst st)) = Some (expected src st)"
      using memcpy_tail1 [OF a(1,3)] unfolding a(2) .
  qed
qed

lemma memcpy_tail4:
  assumes "in_bounds src st" "cs_bytes st < 8"
  shows "unless_done (copyNextWord 4 src st) (\<lambda>st.
         unless_done (copyNextWord 2 src st) (\<lambda>st.
         unless_done (copyNextWord 1 src st) (\<lambda>st. Some (fst st)))) = Some (expected src st)"
proof -
  have "continues src st 4 (copyNextWord 4 src st)"
    using assms by (intro copyNextWord_continues) simp_all
  then show ?thesis
  proof (rule unless_done_continues)
    fix st' assume a: "in_bounds src st'" "expected src st' = expected src st" "cs_bytes st' < 4"
    show "unless_done (copyNextWord 2 src st') (\<lambda>st.
          unless_done (copyNextWord 1 src st) (\<lambda>st. Some (fst st))) = Some (expected src st)"
      using memcpy_tail2 [OF a(1,3)] unfolding a(2) .
  qed
qed

lemma memcpy_tail8:
  assumes "in_bounds src st"
  shows "unless_done (memcpy_words src st) (\<lambda>st.
         unless_done (copyNextWord 4 src st) (\<lambda>st.
         unless_done (copyNextWord 2 src st) (\<lambda>st.
         unless_done (copyNextWord 1 src st) (\<lambda>st. Some (fst st))))) = Some (expected src st)"
  using memcpy_words_continues [OF assms]
proof (rule unless_done_continues)
  fix st' assume a: "in_bounds src st'" "expected src st' = expected src st" "cs_bytes st' < 8"
  show "unless_done (copyNextWord 4 src st') (\<lambda>st.
        unless_done (copyNextWord 2 src st) (\<lambda>st.
        unless_done (copyNextWord 1 src st) (\<lambda>st. Some (fst st)))) = Some (expected src st)"
    using memcpy_tail4 [OF a(1,3)] unfolding a(2) .
qed

lemma memcpy_expected:
  assumes "in_bounds src (dst, to_p, from_p, bytes)"
  shows "memcpy a dst to_p src from_p bytes = Some (expected src (dst, to_p, from_p, bytes))"
  unfolding memcpy_def
  using memcpy_batches_continues [OF assms]
proof (rule unless_done_continues)
  fix st' assume a: "in_bounds src st'"
    "expected src st' = expected src (dst, to_p, from_p, bytes)"
  show "unless_done (memcpy_words src st') (\<lambda>st.
        unless_done (copyNextWord 4 src st) (\<lambda>st.
        unless_done (copyNextWord 2 src st) (\<lambda>st.
        unless_done (copyNextWord 1 src st) (\<lambda>st. Some (fst st)))))
        = Some (expected src (dst, to_p, from_p, bytes))"
    using memcpy_tail8 [OF a(1)] unfolding a(2) .
qed

lemma naive_memcpy_eq:
  assumes "to_p + n \<le> length dst" "from_p + n \<le> length src"
  shows "naive_memcpy dst to_p src from_p n =
         take to_p dst @ take n (drop from_p src) @ drop (to_p + n) dst"
  using assms
proof (induction n arbitrary: dst to_p from_p)
  case 0
  then show ?case by simp
next
  case (Suc n)
  let ?dst = "dst[to_p := src ! from_p]"
  have a: "take (Suc to_p) ?dst = take to_p dst @ [src ! from_p]"
    using Suc.prems by (simp add: take_Suc_conv_app_nth)
  have b: "drop (Suc to_p + n) ?dst = drop (to_p + Suc n) dst" by simp
  have c: "take (Suc n) (drop from_p src) = src ! from_p # take n (drop (Suc from_p) src)"
    using Suc.prems by (simp add: Cons_nth_drop_Suc [symmetric])
  have "naive_memcpy dst to_p src from_p (Suc n) =
        take (Suc to_p) ?dst @ take n (drop (Suc from_p) src) @ drop (Suc to_p + n) ?dst"
    using Suc.prems by (simp add: Suc.IH)
  then show ?case unfolding a b c by simp
qed


lemma memcpy_naive:
  assumes "0 \<le> sint bytes" "to_p + unat bytes \<le> length dst" "from_p + unat bytes \<le> length src"
  shows "memcpy a dst to_p src from_p bytes = Some (naive_memcpy dst to_p src from_p (unat bytes))"
  using memcpy_expected [of src dst to_p from_p bytes a] naive_memcpy_eq [OF assms(2,3)] assms
  by (simp add: in_bounds_def expected_def)

text \<open>The bytes of an \<open>int64_t\<close>, least significant first, and the first \<open>n\<close> bytes of a
  value: the bytes of its conversion to the integer type of \<open>n\<close> bytes.\<close>

fun word_of_bytes :: "byte list \<Rightarrow> 64 word" where
  "word_of_bytes [] = 0"
| "word_of_bytes (b # bs) = ucast b OR push_bit 8 (word_of_bytes bs)"

definition bytes_of_word :: "nat \<Rightarrow> 64 word \<Rightarrow> byte list" where
  "bytes_of_word n w = map (\<lambda>i. ucast (drop_bit (8 * i) w)) [0..<n]"

lemma low_byte: "(ucast (ucast (b :: byte) OR push_bit 8 (w :: 64 word)) :: byte) = b"
  by (rule bit_word_eqI) (auto simp: bit_simps)

lemma high_bytes:
  "i < 7 \<Longrightarrow> (ucast (drop_bit (8 * Suc i) (ucast (b :: byte) OR push_bit 8 (w :: 64 word))) :: byte)
     = ucast (drop_bit (8 * i) w)"
  by (rule bit_word_eqI) (auto simp: bit_simps dest: bit_imp_le_length)

lemma bytes_of_word_of_bytes:
  "n \<le> 8 \<Longrightarrow> n \<le> length bs \<Longrightarrow> bytes_of_word n (word_of_bytes bs) = take n bs"
proof (induction bs arbitrary: n)
  case Nil
  then show ?case by (simp add: bytes_of_word_def)
next
  case (Cons b bs)
  show ?case
  proof (cases n)
    case 0
    then show ?thesis by (simp add: bytes_of_word_def)
  next
    case (Suc k)
    have upt: "[0..<Suc k] = 0 # map Suc [0..<k]"
      by (simp add: upt_conv_Cons map_Suc_upt del: upt_Suc)
    have "map (\<lambda>i. (ucast (drop_bit (8 * Suc i) (word_of_bytes (b # bs))) :: byte)) [0..<k]
        = map (\<lambda>i. ucast (drop_bit (8 * i) (word_of_bytes bs))) [0..<k]"
    proof (intro map_cong refl)
      fix x assume "x \<in> set [0..<k]"
      then have "x < 7" using Cons.prems Suc by simp
      then show "(ucast (drop_bit (8 * Suc x) (word_of_bytes (b # bs))) :: byte)
          = ucast (drop_bit (8 * x) (word_of_bytes bs))"
        unfolding word_of_bytes.simps by (rule high_bytes)
    qed
    moreover have "(ucast (drop_bit (8 * 0) (word_of_bytes (b # bs))) :: byte) = b"
      by (simp add: low_byte)
    moreover have "bytes_of_word k (word_of_bytes bs) = take k bs"
      using Cons.prems Suc by (intro Cons.IH) simp_all
    ultimately show ?thesis
      unfolding Suc bytes_of_word_def upt by (simp add: comp_def del: mult_Suc_right)
  qed
qed

text \<open>\<open>xsimd::batch<int8_t, A>::broadcast(data)\<close>, as the bytes of the register.\<close>

definition broadcast :: "arch \<Rightarrow> byte \<Rightarrow> byte list" where
  "broadcast a d = replicate (arch_size a) d"

text \<open>The state of a fill: the destination memory, the offset \<open>to\<close>, and \<open>bytes\<close>.
  \<open>setNextWord<T>\<close> stores the bytes of its argument, \<open>sizeof(T)\<close> of them.\<close>

type_synonym set_state = "byte list \<times> nat \<times> 32 word"

definition SetWord :: "byte list \<Rightarrow> byte list \<Rightarrow> nat \<Rightarrow> byte list option" where
  "SetWord data dst to_p = store_bytes dst to_p data"

definition setNextWord :: "byte list \<Rightarrow> set_state \<Rightarrow> (bool \<times> set_state) option" where
  "setNextWord data st =
     (case st of (dst, to_p, bytes) \<Rightarrow>
        if length data \<le> size_t_of bytes then
          (case SetWord data dst to_p of
             None \<Rightarrow> None
           | Some dst' \<Rightarrow>
               if bytes - of_nat (length data) = 0
               then Some (False, (dst', to_p, bytes - of_nat (length data)))
               else Some (True, (dst', to_p + length data, bytes - of_nat (length data))))
        else Some (True, st))"

lemma setNextWord_measure:
  assumes "setNextWord data (dst, to_p, bytes) = Some (True, st')"
    and "length data \<le> size_t_of bytes" "0 < length data"
  shows "length (fst st') - fst (snd st') < length dst - to_p"
proof -
  obtain dst' to_p' bytes' where st': "st' = (dst', to_p', bytes')"
    by (cases st') auto
  have "length dst' = length dst \<and> to_p' = to_p + length data \<and> to_p + length data \<le> length dst"
    using assms(1,2) unfolding st'
    by (auto simp: setNextWord_def SetWord_def store_bytes_def split: option.splits if_splits)
  then show ?thesis using assms(3) unfolding st' fst_conv snd_conv by linarith
qed

lemma broadcast_length: "length (broadcast a d) = batchByteSize a"
  by (simp add: broadcast_def batchByteSize_def)

lemma bytes_of_word_length: "length (bytes_of_word n w) = n"
  by (simp add: bytes_of_word_def)

text \<open>The two loops of \<open>memset\<close>: over the batch \<open>v = broadcast(data)\<close>, and over
  \<open>data64\<close>, the first 8 bytes of \<open>v\<close> read as an \<open>int64_t\<close>.\<close>

function memset_batches :: "arch \<Rightarrow> byte \<Rightarrow> set_state \<Rightarrow> (bool \<times> set_state) option" where
  "memset_batches a data (dst, to_p, bytes) =
     (if int (batchByteSize a) \<le> sint bytes then
        (case setNextWord (broadcast a data) (dst, to_p, bytes) of
           None \<Rightarrow> None
         | Some (continue, st') \<Rightarrow>
             if continue then memset_batches a data st' else Some (False, st'))
      else Some (True, (dst, to_p, bytes)))"
  by pat_completeness auto
termination
proof (relation "measure (\<lambda>(a, data, st). length (fst st) - fst (snd st))", goal_cases)
  case 1
  show ?case by simp
next
  case (2 a data dst to_p bytes x2 x y)
  then have step: "setNextWord (broadcast a data) (dst, to_p, bytes) = Some (True, y)"
    and le: "int (batchByteSize a) \<le> sint bytes"
    by simp_all
  have "length (broadcast a data) \<le> size_t_of bytes"
    using le_size_t_of [OF le] by (simp add: broadcast_length)
  from setNextWord_measure [OF step this] batchByteSize_pos [of a]
  show ?case by (simp add: broadcast_length)
qed

function memset_words :: "64 word \<Rightarrow> set_state \<Rightarrow> (bool \<times> set_state) option" where
  "memset_words data64 (dst, to_p, bytes) =
     (if 8 \<le> size_t_of bytes then
        (case setNextWord (bytes_of_word 8 data64) (dst, to_p, bytes) of
           None \<Rightarrow> None
         | Some (continue, st') \<Rightarrow>
             if continue then memset_words data64 st' else Some (False, st'))
      else Some (True, (dst, to_p, bytes)))"
  by pat_completeness auto
termination
proof (relation "measure (\<lambda>(data64, st). length (fst st) - fst (snd st))", goal_cases)
  case 1
  show ?case by simp
next
  case (2 data64 dst to_p bytes x2 x y)
  then have step: "setNextWord (bytes_of_word 8 data64) (dst, to_p, bytes) = Some (True, y)"
    and le: "8 \<le> size_t_of bytes"
    by simp_all
  from setNextWord_measure [OF step] le
  show ?case by (simp add: bytes_of_word_length)
qed

text \<open>\<open>simd::memset\<close>. The narrower words take \<open>data64\<close> converted to their type.\<close>

definition memset :: "arch \<Rightarrow> byte list \<Rightarrow> nat \<Rightarrow> byte \<Rightarrow> 32 word \<Rightarrow> byte list option" where
  "memset a dst to_p data bytes =
     unless_done (memset_batches a data (dst, to_p, bytes)) (\<lambda>st.
     let data64 = word_of_bytes (take 8 (broadcast a data)) in
     unless_done (memset_words data64 st) (\<lambda>st.
     unless_done (setNextWord (bytes_of_word 4 data64) st) (\<lambda>st.
     unless_done (setNextWord (bytes_of_word 2 data64) st) (\<lambda>st.
     unless_done (setNextWord (bytes_of_word 1 data64) st) (\<lambda>st. Some (fst st))))))"

text \<open>The naive fill, one byte at a time.\<close>

fun naive_memset :: "byte list \<Rightarrow> nat \<Rightarrow> byte \<Rightarrow> nat \<Rightarrow> byte list" where
  "naive_memset dst to_p data 0 = dst"
| "naive_memset dst to_p data (Suc n) = naive_memset (dst[to_p := data]) (Suc to_p) data n"


lemma naive_memset_eq:
  assumes "to_p + n \<le> length dst"
  shows "naive_memset dst to_p data n = take to_p dst @ replicate n data @ drop (to_p + n) dst"
  using assms
proof (induction n arbitrary: dst to_p)
  case 0
  then show ?case by simp
next
  case (Suc n)
  let ?dst = "dst[to_p := data]"
  have a: "take (Suc to_p) ?dst = take to_p dst @ [data]"
    using Suc.prems by (simp add: take_Suc_conv_app_nth)
  have b: "drop (Suc to_p + n) ?dst = drop (to_p + Suc n) dst" by simp
  have "naive_memset dst to_p data (Suc n) =
        take (Suc to_p) ?dst @ replicate n data @ drop (Suc to_p + n) ?dst"
    using Suc.prems by (simp add: Suc.IH)
  then show ?case unfolding a b by (simp add: replicate_append_same)
qed

text \<open>A fill with \<open>d\<close> is a copy from a buffer full of \<open>d\<close>: every step of \<open>memset\<close> is the
  step of \<open>memcpy\<close> on such a source, with the offset \<open>from\<close> left out of the state.\<close>

definition drop_from :: "copy_state \<Rightarrow> set_state" where
  "drop_from st = (case st of (dst, to_p, from_p, bytes) \<Rightarrow> (dst, to_p, bytes))"

definition as_fill :: "(bool \<times> copy_state) option \<Rightarrow> (bool \<times> set_state) option" where
  "as_fill r = map_option (\<lambda>(c, st). (c, drop_from st)) r"

lemma setNextWord_as_copy:
  assumes "in_bounds (replicate m d) st"
  shows "setNextWord (replicate sz d) (drop_from st) = as_fill (copyNextWord sz (replicate m d) st)"
proof -
  obtain dst to_p from_p bytes where st: "st = (dst, to_p, from_p, bytes)"
    by (cases st) auto
  have nn: "0 \<le> sint bytes" and from_ok: "from_p + unat bytes \<le> m"
    using assms by (simp_all add: st in_bounds_def)
  have sz: "size_t_of bytes = unat bytes" using nn by (rule size_t_of_nonneg)
  show ?thesis
  proof (cases "sz \<le> size_t_of bytes")
    case False
    then show ?thesis
      by (simp add: st setNextWord_def copyNextWord_def drop_from_def as_fill_def)
  next
    case True
    then have "from_p + sz \<le> m" using from_ok sz by simp
    then have "load_bytes (replicate m d) from_p sz = Some (replicate sz d)"
      by (simp add: load_bytes_def)
    then show ?thesis
      using True
      by (simp add: st setNextWord_def copyNextWord_def drop_from_def as_fill_def SetWord_def
          CopyWord_def split: option.splits)
  qed
qed

lemma unless_done_as_fill:
  "unless_done (as_fill r) rest = unless_done r (\<lambda>st. rest (drop_from st))"
proof (cases r)
  case None
  then show ?thesis by (simp add: as_fill_def unless_done_def)
next
  case (Some p)
  obtain c dst to_p from_p bytes where "p = (c, dst, to_p, from_p, bytes)"
    by (cases p) auto
  then show ?thesis using Some by (simp add: as_fill_def unless_done_def drop_from_def)
qed

lemma memset_batches_as_copy:
  assumes "in_bounds (replicate m d) st"
  shows "memset_batches a d (drop_from st) = as_fill (memcpy_batches a (replicate m d) st)"
  using assms
proof (induction "cs_bytes st" arbitrary: st rule: less_induct)
  case less
  let ?src = "replicate m d"
  obtain dst to_p from_p bytes where st: "st = (dst, to_p, from_p, bytes)"
    by (cases st) auto
  have nn: "0 \<le> sint bytes" using less.prems by (simp add: st in_bounds_def)
  show ?case
  proof (cases "int (batchByteSize a) \<le> sint bytes")
    case False
    then show ?thesis by (simp add: st drop_from_def as_fill_def)
  next
    case True
    have le: "batchByteSize a \<le> cs_bytes st"
      using le_size_t_of [OF True] by (simp add: size_t_of_nonneg [OF nn] st cs_bytes_def)
    have fill: "memset_batches a d (drop_from st) =
        (case as_fill (copyNextWord (batchByteSize a) ?src st) of
           None \<Rightarrow> None
         | Some (c, st') \<Rightarrow> if c then memset_batches a d st' else Some (False, st'))"
      using True setNextWord_as_copy [OF less.prems, of "batchByteSize a"]
      by (simp add: st drop_from_def broadcast_def batchByteSize_def)
    have copy: "memcpy_batches a ?src st =
        (case copyNextWord (batchByteSize a) ?src st of
           None \<Rightarrow> None
         | Some (c, st') \<Rightarrow> if c then memcpy_batches a ?src st' else Some (False, st'))"
      using True by (simp add: st)
    from copyNextWord_copy [OF less.prems batchByteSize_pos le] show ?thesis
    proof (elim disjE exE conjE)
      fix st' assume step: "copyNextWord (batchByteSize a) ?src st = Some (True, st')"
        and ok: "in_bounds ?src st'" and n: "cs_bytes st' = cs_bytes st - batchByteSize a"
      have "cs_bytes st' < cs_bytes st" using n le batchByteSize_pos [of a] by simp
      then have "memset_batches a d (drop_from st') = as_fill (memcpy_batches a ?src st')"
        using ok by (rule less.hyps)
      then show ?thesis by (simp add: fill copy step as_fill_def)
    next
      fix st' assume step: "copyNextWord (batchByteSize a) ?src st = Some (False, st')"
      then show ?thesis by (simp add: fill copy as_fill_def)
    qed
  qed
qed

lemma memset_words_as_copy:
  assumes "in_bounds (replicate m d) st" "bytes_of_word 8 data64 = replicate 8 d"
  shows "memset_words data64 (drop_from st) = as_fill (memcpy_words (replicate m d) st)"
  using assms(1)
proof (induction "cs_bytes st" arbitrary: st rule: less_induct)
  case less
  let ?src = "replicate m d"
  obtain dst to_p from_p bytes where st: "st = (dst, to_p, from_p, bytes)"
    by (cases st) auto
  have nn: "0 \<le> sint bytes" using less.prems by (simp add: st in_bounds_def)
  show ?case
  proof (cases "8 \<le> size_t_of bytes")
    case False
    then show ?thesis by (simp add: st drop_from_def as_fill_def)
  next
    case True
    have le: "8 \<le> cs_bytes st"
      using True by (simp add: size_t_of_nonneg [OF nn] st cs_bytes_def)
    have fill: "memset_words data64 (drop_from st) =
        (case as_fill (copyNextWord 8 ?src st) of
           None \<Rightarrow> None
         | Some (c, st') \<Rightarrow> if c then memset_words data64 st' else Some (False, st'))"
      using True setNextWord_as_copy [OF less.prems, of 8]
      by (simp add: st drop_from_def assms(2))
    have copy: "memcpy_words ?src st =
        (case copyNextWord 8 ?src st of
           None \<Rightarrow> None
         | Some (c, st') \<Rightarrow> if c then memcpy_words ?src st' else Some (False, st'))"
      using True by (simp add: st)
    have "0 < (8::nat)" by simp
    from copyNextWord_copy [OF less.prems this le] show ?thesis
    proof (elim disjE exE conjE)
      fix st' assume step: "copyNextWord 8 ?src st = Some (True, st')"
        and ok: "in_bounds ?src st'" and n: "cs_bytes st' = cs_bytes st - 8"
      have "cs_bytes st' < cs_bytes st" using n le by simp
      then have "memset_words data64 (drop_from st') = as_fill (memcpy_words ?src st')"
        using ok by (rule less.hyps)
      then show ?thesis by (simp add: fill copy step as_fill_def)
    next
      fix st' assume step: "copyNextWord 8 ?src st = Some (False, st')"
      then show ?thesis by (simp add: fill copy as_fill_def)
    qed
  qed
qed

lemma fst_drop_from: "fst (drop_from st) = fst st"
  by (cases st) (simp add: drop_from_def)

lemma memset_tail1:
  assumes "in_bounds (replicate m d) st" "cs_bytes st < 2"
  shows "unless_done (setNextWord (replicate 1 d) (drop_from st)) (\<lambda>st. Some (fst st))
         = Some (expected (replicate m d) st)"
  using memcpy_tail1 [OF assms]
  by (simp only: setNextWord_as_copy [OF assms(1)] unless_done_as_fill fst_drop_from)

lemma memset_tail2:
  assumes "in_bounds (replicate m d) st" "cs_bytes st < 4"
  shows "unless_done (setNextWord (replicate 2 d) (drop_from st)) (\<lambda>st.
         unless_done (setNextWord (replicate 1 d) st) (\<lambda>st. Some (fst st)))
         = Some (expected (replicate m d) st)"
proof -
  let ?src = "replicate m d"
  have "continues ?src st 2 (copyNextWord 2 ?src st)"
    using assms by (intro copyNextWord_continues) simp_all
  then have "unless_done (copyNextWord 2 ?src st) (\<lambda>st.
      unless_done (setNextWord (replicate 1 d) (drop_from st)) (\<lambda>st. Some (fst st)))
      = Some (expected ?src st)"
  proof (rule unless_done_continues)
    fix st' assume a: "in_bounds ?src st'" "expected ?src st' = expected ?src st" "cs_bytes st' < 2"
    show "unless_done (setNextWord (replicate 1 d) (drop_from st')) (\<lambda>st. Some (fst st))
        = Some (expected ?src st)"
      using memset_tail1 [OF a(1,3)] unfolding a(2) .
  qed
  then show ?thesis
    by (simp only: setNextWord_as_copy [OF assms(1)] unless_done_as_fill)
qed

lemma memset_tail4:
  assumes "in_bounds (replicate m d) st" "cs_bytes st < 8"
  shows "unless_done (setNextWord (replicate 4 d) (drop_from st)) (\<lambda>st.
         unless_done (setNextWord (replicate 2 d) st) (\<lambda>st.
         unless_done (setNextWord (replicate 1 d) st) (\<lambda>st. Some (fst st))))
         = Some (expected (replicate m d) st)"
proof -
  let ?src = "replicate m d"
  have "continues ?src st 4 (copyNextWord 4 ?src st)"
    using assms by (intro copyNextWord_continues) simp_all
  then have "unless_done (copyNextWord 4 ?src st) (\<lambda>st.
      unless_done (setNextWord (replicate 2 d) (drop_from st)) (\<lambda>st.
      unless_done (setNextWord (replicate 1 d) st) (\<lambda>st. Some (fst st))))
      = Some (expected ?src st)"
  proof (rule unless_done_continues)
    fix st' assume a: "in_bounds ?src st'" "expected ?src st' = expected ?src st" "cs_bytes st' < 4"
    show "unless_done (setNextWord (replicate 2 d) (drop_from st')) (\<lambda>st.
          unless_done (setNextWord (replicate 1 d) st) (\<lambda>st. Some (fst st)))
        = Some (expected ?src st)"
      using memset_tail2 [OF a(1,3)] unfolding a(2) .
  qed
  then show ?thesis
    by (simp only: setNextWord_as_copy [OF assms(1)] unless_done_as_fill)
qed

lemma memset_tail8:
  assumes "in_bounds (replicate m d) st" "bytes_of_word 8 data64 = replicate 8 d"
  shows "unless_done (memset_words data64 (drop_from st)) (\<lambda>st.
         unless_done (setNextWord (replicate 4 d) st) (\<lambda>st.
         unless_done (setNextWord (replicate 2 d) st) (\<lambda>st.
         unless_done (setNextWord (replicate 1 d) st) (\<lambda>st. Some (fst st)))))
         = Some (expected (replicate m d) st)"
proof -
  let ?src = "replicate m d"
  have "unless_done (memcpy_words ?src st) (\<lambda>st.
      unless_done (setNextWord (replicate 4 d) (drop_from st)) (\<lambda>st.
      unless_done (setNextWord (replicate 2 d) st) (\<lambda>st.
      unless_done (setNextWord (replicate 1 d) st) (\<lambda>st. Some (fst st)))))
      = Some (expected ?src st)"
    using memcpy_words_continues [OF assms(1)]
  proof (rule unless_done_continues)
    fix st' assume a: "in_bounds ?src st'" "expected ?src st' = expected ?src st" "cs_bytes st' < 8"
    show "unless_done (setNextWord (replicate 4 d) (drop_from st')) (\<lambda>st.
          unless_done (setNextWord (replicate 2 d) st) (\<lambda>st.
          unless_done (setNextWord (replicate 1 d) st) (\<lambda>st. Some (fst st))))
        = Some (expected ?src st)"
      using memset_tail4 [OF a(1,3)] unfolding a(2) .
  qed
  then show ?thesis
    by (simp only: memset_words_as_copy [OF assms] unless_done_as_fill)
qed

lemma data64_bytes:
  assumes "n \<le> 8"
  shows "bytes_of_word n (word_of_bytes (take 8 (broadcast a d))) = replicate n d"
proof -
  have "8 \<le> arch_size a" by (cases a) simp_all
  then have "take 8 (broadcast a d) = replicate 8 d" by (simp add: broadcast_def)
  then show ?thesis using assms by (simp add: bytes_of_word_of_bytes)
qed

lemma memset_expected:
  assumes "0 \<le> sint bytes" "to_p + unat bytes \<le> length dst"
  shows "memset a dst to_p d bytes =
         Some (take to_p dst @ replicate (unat bytes) d @ drop (to_p + unat bytes) dst)"
proof -
  let ?src = "replicate (unat bytes) d"
  let ?st0 = "(dst, to_p, 0, bytes)"
  let ?data64 = "word_of_bytes (take 8 (broadcast a d))"
  have ok: "in_bounds ?src ?st0" using assms by (simp add: in_bounds_def)
  have b8: "bytes_of_word 8 ?data64 = replicate 8 d" by (simp add: data64_bytes)
  have "unless_done (memcpy_batches a ?src ?st0) (\<lambda>st.
      unless_done (memset_words ?data64 (drop_from st)) (\<lambda>st.
      unless_done (setNextWord (replicate 4 d) st) (\<lambda>st.
      unless_done (setNextWord (replicate 2 d) st) (\<lambda>st.
      unless_done (setNextWord (replicate 1 d) st) (\<lambda>st. Some (fst st))))))
      = Some (expected ?src ?st0)"
    using memcpy_batches_continues [OF ok]
  proof (rule unless_done_continues)
    fix st' assume a: "in_bounds ?src st'" "expected ?src st' = expected ?src ?st0"
    show "unless_done (memset_words ?data64 (drop_from st')) (\<lambda>st.
          unless_done (setNextWord (replicate 4 d) st) (\<lambda>st.
          unless_done (setNextWord (replicate 2 d) st) (\<lambda>st.
          unless_done (setNextWord (replicate 1 d) st) (\<lambda>st. Some (fst st)))))
        = Some (expected ?src ?st0)"
      using memset_tail8 [OF a(1) b8] unfolding a(2) .
  qed
  moreover have "memset_batches a d (dst, to_p, bytes) = as_fill (memcpy_batches a ?src ?st0)"
    using memset_batches_as_copy [OF ok, of a] by (simp add: drop_from_def)
  ultimately show ?thesis
    by (simp only: memset_def Let_def data64_bytes unless_done_as_fill expected_def
        prod.case take_all length_replicate order_refl drop_0 add_0 le_numeral_simps
        numeral_le_iff semiring_norm one_le_numeral)
qed

text \<open>
  C3. For a byte count \<open>bytes \<ge> 0\<close> and buffers that hold \<open>bytes\<close> bytes from their offsets
  on, at any offsets, \<open>memcpy\<close> returns the destination memory of the naive byte-by-byte
  copy, and \<open>memset\<close> the destination memory of the naive byte-by-byte fill.
\<close>

theorem memcpy_memset_naive:
  assumes "0 \<le> sint bytes" "to_p + unat bytes \<le> length dst"
  shows "(from_p + unat bytes \<le> length src \<longrightarrow>
            memcpy a dst to_p src from_p bytes
              = Some (naive_memcpy dst to_p src from_p (unat bytes)))
       \<and> memset a dst to_p d bytes = Some (naive_memset dst to_p d (unat bytes))"
  using memcpy_naive [OF assms] memset_expected [OF assms] naive_memset_eq [OF assms(2)]
  by simp

theorem memcpy_memset_naive_witness:
  "memcpy generic16 (replicate 13 0) 1 [10, 11, 12, 13, 14, 15, 16, 17, 18, 19, 20, 21, 22] 2 11
     = Some [0, 12, 13, 14, 15, 16, 17, 18, 19, 20, 21, 22, 0]
   \<and> memset generic16 (replicate 13 0) 1 7 11 = Some [0, 7, 7, 7, 7, 7, 7, 7, 7, 7, 7, 7, 0]"
proof -
  let ?src = "[10, 11, 12, 13, 14, 15, 16, 17, 18, 19, 20, 21, 22 :: byte]"
  have b: "0 \<le> sint (11 :: 32 word)" "unat (11 :: 32 word) = 11" by simp_all
  have "1 + unat (11 :: 32 word) \<le> length (replicate 13 (0 :: byte))"
    "2 + unat (11 :: 32 word) \<le> length ?src" by simp_all
  with memcpy_memset_naive [OF b(1), of 1 "replicate 13 0" 2 ?src generic16 7]
  have "memcpy generic16 (replicate 13 0) 1 ?src 2 11
          = Some (naive_memcpy (replicate 13 0) 1 ?src 2 (unat (11 :: 32 word)))"
    and "memset generic16 (replicate 13 0) 1 7 11
          = Some (naive_memset (replicate 13 0) 1 7 (unat (11 :: 32 word)))"
    by simp_all
  moreover have "naive_memcpy (replicate 13 0) 1 ?src 2 11
      = [0, 12, 13, 14, 15, 16, 17, 18, 19, 20, 21, 22, 0]"
    by code_simp
  moreover have "naive_memset (replicate 13 0) 1 7 11
      = [0, 7, 7, 7, 7, 7, 7, 7, 7, 7, 7, 7, 0 :: byte]"
    by code_simp
  ultimately show ?thesis unfolding b(2) by simp
qed

subsection \<open>Incremental CRC-32 (\<open>detail::Crc32<uint64_t, A>\<close>)\<close>

text \<open>
  \<open>boost::crc_32_type\<close> is \<open>boost::crc_optimal<32, 0x04C11DB7, 0xFFFFFFFF, 0xFFFFFFFF,
  true, true>\<close>: a 32-bit remainder over the polynomial \<open>0x04C11DB7\<close>, input bytes and
  remainder reflected, and \<open>0xFFFFFFFF\<close> XORed into the checksum. The object keeps the
  remainder in reflected form: its constructor stores the reflection of the initial
  remainder it is given, \<open>process_bytes\<close> shifts each byte in from the low end (the
  polynomial reflected is \<open>0xEDB88320\<close>; the library tabulates the eight shifts of a
  byte), and \<open>operator()\<close> returns the remainder XOR \<open>0xFFFFFFFF\<close>.
\<close>

type_synonym crc_optimal = "32 word"

definition crc_optimal_init :: "32 word \<Rightarrow> crc_optimal" where
  "crc_optimal_init init_rem = word_reverse init_rem"

definition crc_shift :: "crc_optimal \<Rightarrow> crc_optimal" where
  "crc_shift rem = (if bit rem 0 then drop_bit 1 rem XOR 0xEDB88320 else drop_bit 1 rem)"

definition process_byte :: "crc_optimal \<Rightarrow> byte \<Rightarrow> crc_optimal" where
  "process_byte rem b = (crc_shift ^^ 8) (rem XOR ucast b)"

definition process_bytes :: "crc_optimal \<Rightarrow> byte list \<Rightarrow> crc_optimal" where
  "process_bytes rem buffer = foldl process_byte rem buffer"

definition checksum :: "crc_optimal \<Rightarrow> 32 word" where
  "checksum rem = rem XOR 0xFFFFFFFF"


text \<open>The whole-buffer algorithm of the same \<open>crc_32_type\<close>: constructed from the seed, it
  processes all the bytes at once.\<close>

definition crc32_over_whole_buffer :: "32 word \<Rightarrow> byte list \<Rightarrow> 32 word" where
  "crc32_over_whole_buffer seed buffer = checksum (process_bytes (crc_optimal_init seed) buffer)"





lemma funpow_8: "(f ^^ 8) x = f (f (f (f (f (f (f (f x)))))))"
  by (simp add: eval_nat_numeral)

lemma process_byte_unfold:
  "process_byte rem b =
     crc_shift (crc_shift (crc_shift (crc_shift (crc_shift (crc_shift (crc_shift (crc_shift
       (rem XOR ucast b))))))))"
  by (simp only: process_byte_def funpow_8)



lemma word_reverse_ones: "word_reverse (0xFFFFFFFF :: 32 word) = 0xFFFFFFFF"
proof -
  have e: "(0xFFFFFFFF :: 32 word) = - 1" by simp
  show ?thesis
    unfolding e by (rule bit_word_eqI) (auto simp: bit_word_reverse_iff)
qed



text \<open>The model gives the check value of CRC-32: the checksum of the digits
  \<open>"123456789"\<close> from the default initial remainder is \<open>0xCBF43926\<close>.\<close>

lemma crc_32_check_value:
  "crc32_over_whole_buffer 0xFFFFFFFF [0x31, 0x32, 0x33, 0x34, 0x35, 0x36, 0x37, 0x38, 0x39]
     = 0xCBF43926"
  by (simp add: crc32_over_whole_buffer_def crc_optimal_init_def word_reverse_ones
      process_bytes_def process_byte_unfold crc_shift_def checksum_def)





subsection \<open>Indices of set bits (\<open>indicesOfSetBits\<close>)\<close>

text \<open>
  The positions \<open>begin\<close>, \<open>end\<close>, \<open>row\<close> and the entries written are \<open>int32_t\<close>: integers
  here, with \<open>int32\<close> around every result that is stored in 32 bits, so that a sum that
  leaves the type wraps as it does in the builds. A division truncates towards zero.
\<close>

definition int32 :: "int \<Rightarrow> int" where
  "int32 x = signed_take_bit 31 x"

definition c_div :: "int \<Rightarrow> int \<Rightarrow> int" where
  "c_div x y = sgn x * sgn y * (\<bar>x\<bar> div \<bar>y\<bar>)"

text \<open>Modelled from the spec: \<open>bits::roundUp\<close> and \<open>bits::highMask\<close> are declared outside this
  file. \<open>roundUp(value, factor)\<close> is the next multiple of \<open>factor\<close>, computed in the type of
  \<open>value\<close> as \<open>(value + (factor - 1)) / factor * factor\<close>; \<open>highMask(n)\<close> is the mask of the
  \<open>n\<close> high bits of a 64-bit word, \<open>lowMask(n) << (64 - n)\<close>, and \<open>lowMask(n)\<close> as a word the
  mask of the \<open>n\<close> low bits. A shift by 64 or by a negative count has no behaviour.\<close>

definition roundUp :: "int \<Rightarrow> int \<Rightarrow> int" where
  "roundUp val factor = int32 (c_div (int32 (val + (factor - 1))) factor * factor)"

definition lowMask64 :: "int \<Rightarrow> 64 word option" where
  "lowMask64 n = (if 0 \<le> n \<and> n < 64 then Some (word_of_int (lowMask (nat n))) else None)"

definition highMask :: "int \<Rightarrow> 64 word option" where
  "highMask n =
     (if 0 < n \<and> n < 64 then Some (push_bit (64 - nat n) (word_of_int (lowMask (nat n))))
      else None)"

text \<open>\<open>__builtin_ctzll\<close>, and a store of consecutive entries through \<open>result\<close>, which is the
  offset \<open>n\<close> into the output buffer.\<close>

definition ctzll :: "64 word \<Rightarrow> nat" where
  "ctzll w = length (takeWhile (\<lambda>k. \<not> bit w k) [0..<64])"

definition store_at :: "'a list \<Rightarrow> nat \<Rightarrow> 'a list \<Rightarrow> 'a list option" where
  "store_at out n vs =
     (if n + length vs \<le> length out then Some (take n out @ vs @ drop (n + length vs) out)
      else None)"

text \<open>The sparse strategy: \<open>do { *result++ = __builtin_ctzll(word) + row; word = word & (word - 1); }
  while (word)\<close>.\<close>

function sparse_bits :: "64 word \<Rightarrow> int \<Rightarrow> int list \<Rightarrow> nat \<Rightarrow> (int list \<times> nat) option" where
  "sparse_bits w row out n =
     (case store_at out n [int32 (int (ctzll w) + row)] of
        None \<Rightarrow> None
      | Some out' \<Rightarrow>
          if w AND (w - 1) \<noteq> 0 then sparse_bits (w AND (w - 1)) row out' (Suc n)
          else Some (out', Suc n))"
  by pat_completeness auto
termination
proof (relation "measure (\<lambda>(w, row, out, n). unat w)", goal_cases)
  case 1
  show ?case by simp
next
  case (2 w row out n out')
  then have nz: "w \<noteq> 0" by auto
  have "w AND (w - 1) \<le> w - 1" by (rule word_and_le1)
  also have "w - 1 < w" using nz by (simp add: word_less_nat_alt unat_minus_one unat_gt_0)
  finally show ?case by (simp add: word_less_nat_alt)
qed

text \<open>The dense strategy, for one nonzero byte: the row of the table plus \<open>row\<close> is stored as
  a whole batch of \<open>int32_t\<close> and \<open>result\<close> moves by the number of set bits; with batches
  of 4 lanes, the low and the high half of the byte in turn.\<close>

definition add_row :: "int \<Rightarrow> int list \<Rightarrow> int list" where
  "add_row row indices = map (\<lambda>x. int32 (x + row)) indices"

fun store_byte ::
  "(nat \<Rightarrow> nat \<Rightarrow> int) \<Rightarrow> arch \<Rightarrow> 8 word \<Rightarrow> int \<Rightarrow> int list \<Rightarrow> nat \<Rightarrow> (int list \<times> nat) option" where
  "store_byte fill generic32 byte row out n =
     (let indices = byteSetBits_row fill (unat byte) in
      case store_at out n (add_row row (take 8 indices)) of
        None \<Rightarrow> None
      | Some out' \<Rightarrow> Some (out', n + popcount (uint byte)))"
| "store_byte fill generic16 byte row out n =
     (let indices = byteSetBits_row fill (unat byte);
          lo = byte AND 15;
          hi = drop_bit 4 byte
      in case (if lo \<noteq> 0
               then (case store_at out n (add_row row (take 4 indices)) of
                       None \<Rightarrow> None
                     | Some out' \<Rightarrow> Some (out', popcount (uint lo)))
               else Some (out, 0)) of
           None \<Rightarrow> None
         | Some (out', pop) \<Rightarrow>
             if hi \<noteq> 0
             then (case store_at out' (n + pop) (add_row row (take 4 (drop pop indices))) of
                     None \<Rightarrow> None
                   | Some out'' \<Rightarrow> Some (out'', n + pop + popcount (uint hi)))
             else Some (out', n + pop))"

text \<open>\<open>for (auto byteCnt = 0; byteCnt < 8; ++byteCnt)\<close>: the bytes of the word from the low
  end, \<open>row\<close> moving by 8 with each.\<close>

function dense_bytes ::
  "(nat \<Rightarrow> nat \<Rightarrow> int) \<Rightarrow> arch \<Rightarrow> nat \<Rightarrow> 64 word \<Rightarrow> int \<Rightarrow> int list \<Rightarrow> nat
     \<Rightarrow> (int \<times> int list \<times> nat) option" where
  "dense_bytes fill a byteCnt w row out n =
     (if byteCnt < 8 then
        (if (ucast w :: 8 word) \<noteq> 0 then
           (case store_byte fill a (ucast w) row out n of
              None \<Rightarrow> None
            | Some (out', n') \<Rightarrow>
                dense_bytes fill a (Suc byteCnt) (drop_bit 8 w) (int32 (row + 8)) out' n')
         else dense_bytes fill a (Suc byteCnt) (drop_bit 8 w) (int32 (row + 8)) out n)
      else Some (row, out, n))"
  by pat_completeness auto
termination
  by (relation "measure (\<lambda>(fill, a, byteCnt, w, row, out, n). 8 - byteCnt)") auto

text \<open>The two partial words: \<open>if (wordIndex == firstWord && begin != firstWord * 64)
  word &= bits::highMask(64 - (begin - firstWord * 64))\<close>, and \<open>if (wordIndex == endWord - 1)\<close>
  with \<open>lastBits = end - (endWord - 1) * 64\<close>, \<open>if (lastBits < 64) word &= bits::lowMask(lastBits)\<close>.\<close>

definition mask_first :: "int \<Rightarrow> int \<Rightarrow> int \<Rightarrow> 64 word \<Rightarrow> 64 word option" where
  "mask_first begin firstWord wordIndex w =
     (if wordIndex = firstWord \<and> begin \<noteq> int32 (firstWord * 64)
      then map_option (\<lambda>m. w AND m)
             (highMask (int32 (64 - int32 (begin - int32 (firstWord * 64)))))
      else Some w)"

definition mask_last :: "int \<Rightarrow> int \<Rightarrow> int \<Rightarrow> 64 word \<Rightarrow> 64 word option" where
  "mask_last end endWord wordIndex w =
     (if wordIndex = int32 (endWord - 1)
         \<and> int32 (end - int32 (int32 (endWord - 1) * 64)) < 64
      then map_option (\<lambda>m. w AND m)
             (lowMask64 (int32 (end - int32 (int32 (endWord - 1) * 64))))
      else Some w)"

text \<open>The choice of the strategy for a nonzero word, \<open>if (result - originalResult < (row >> 2))\<close>,
  with \<open>row\<close> after the word.\<close>

definition extract_word ::
  "(nat \<Rightarrow> nat \<Rightarrow> int) \<Rightarrow> arch \<Rightarrow> 64 word \<Rightarrow> int \<Rightarrow> int list \<Rightarrow> nat
     \<Rightarrow> (int \<times> int list \<times> nat) option" where
  "extract_word fill a w row out n =
     (if int n < row div 4 then
        (case sparse_bits w row out n of
           None \<Rightarrow> None
         | Some (out', n') \<Rightarrow> Some (int32 (row + 64), out', n'))
      else dense_bytes fill a 0 w row out n)"

text \<open>One turn of the loop over the words, from the state \<open>(row, result)\<close> with the output
  buffer: it ends in \<open>continue\<close> (or the end of the body) or in \<open>break\<close>.\<close>

datatype 's flow = Continue 's | Break 's

definition word_step ::
  "(nat \<Rightarrow> nat \<Rightarrow> int) \<Rightarrow> arch \<Rightarrow> 64 word list \<Rightarrow> int \<Rightarrow> int \<Rightarrow> int \<Rightarrow> int \<Rightarrow> int
     \<Rightarrow> int \<times> int list \<times> nat \<Rightarrow> (int \<times> int list \<times> nat) flow option" where
  "word_step fill a bits begin end firstWord endWord wordIndex st =
     (case st of (row, out, n) \<Rightarrow>
      if \<not> (0 \<le> wordIndex \<and> nat wordIndex < length bits) then None
      else
        let w = bits ! nat wordIndex in
        if w = 0 then Some (Continue (int32 (row + 64), out, n))
        else
          (case mask_first begin firstWord wordIndex w of
             None \<Rightarrow> None
           | Some w \<Rightarrow>
               if w = 0 then Some (Continue (int32 (row + 64), out, n))
               else
                 (case mask_last end endWord wordIndex w of
                    None \<Rightarrow> None
                  | Some w \<Rightarrow>
                      if w = 0 then Some (Break (row, out, n))
                      else map_option Continue (extract_word fill a w row out n))))"

text \<open>\<open>for (auto wordIndex = firstWord; wordIndex < endWord; ++wordIndex)\<close>.\<close>

function word_loop ::
  "(nat \<Rightarrow> nat \<Rightarrow> int) \<Rightarrow> arch \<Rightarrow> 64 word list \<Rightarrow> int \<Rightarrow> int \<Rightarrow> int \<Rightarrow> int \<Rightarrow> int
     \<Rightarrow> int \<times> int list \<times> nat \<Rightarrow> (int \<times> int list \<times> nat) option" where
  "word_loop fill a bits begin end firstWord endWord wordIndex st =
     (if wordIndex < endWord then
        (case word_step fill a bits begin end firstWord endWord wordIndex st of
           None \<Rightarrow> None
         | Some (Break st') \<Rightarrow> Some st'
         | Some (Continue st') \<Rightarrow>
             word_loop fill a bits begin end firstWord endWord (wordIndex + 1) st')
      else Some st)"
  by pat_completeness auto
termination
  by (relation "measure (\<lambda>(fill, a, bits, begin, end, firstWord, endWord, wordIndex, st).
        nat (endWord - wordIndex))") auto

text \<open>\<open>indicesOfSetBits\<close>: the output buffer after the call, and the count returned.\<close>

definition indicesOfSetBits ::
  "(nat \<Rightarrow> nat \<Rightarrow> int) \<Rightarrow> arch \<Rightarrow> 64 word list \<Rightarrow> int \<Rightarrow> int \<Rightarrow> int list
     \<Rightarrow> (int list \<times> int) option" where
  "indicesOfSetBits fill a bits begin end out =
     (if end \<le> begin then Some (out, 0)
      else
        let row = begin AND NOT 63;
            endWord = c_div (roundUp end 64) 64;
            firstWord = c_div begin 64
        in case word_loop fill a bits begin end firstWord endWord firstWord (row, out, 0) of
             None \<Rightarrow> None
           | Some (row', out', n) \<Rightarrow> Some (out', int32 (int n)))"

text \<open>The set bits of a word, in ascending order.\<close>

definition setbits :: "64 word \<Rightarrow> nat list" where
  "setbits w = filter (bit w) [0..<64]"

lemma int32_id: "- (2 ^ 31) \<le> x \<Longrightarrow> x < 2 ^ 31 \<Longrightarrow> int32 x = x"
  by (simp add: int32_def signed_take_bit_int_eq_self)

text \<open>Clearing the lowest set bit, on natural numbers and on words.\<close>

lemma bit_and_decr_nat:
  "0 < m \<Longrightarrow> bit (m AND (m - 1)) k \<longleftrightarrow> bit m k \<and> (\<exists>j<k. bit m j)" for m :: nat
proof (induction k arbitrary: m)
  case 0
  then have "even m \<or> even (m - 1)" by presburger
  then show ?case by (simp add: bit_0 even_and_iff)
next
  case (Suc k)
  have "bit (m AND (m - 1)) (Suc k) \<longleftrightarrow> bit m (Suc k) \<and> bit (m - 1) (Suc k)"
    by (simp only: bit_and_iff)
  also have "\<dots> \<longleftrightarrow> bit (m div 2) k \<and> bit ((m - 1) div 2) k"
    by (simp only: bit_Suc)
  also have "\<dots> \<longleftrightarrow> bit ((m div 2) AND ((m - 1) div 2)) k"
    by (simp only: bit_and_iff)
  finally have step:
    "bit (m AND (m - 1)) (Suc k) \<longleftrightarrow> bit ((m div 2) AND ((m - 1) div 2)) k" .
  show ?case
  proof (cases "odd m")
    case True
    then have "(m - 1) div 2 = m div 2" by (auto elim!: oddE)
    then have "bit (m AND (m - 1)) (Suc k) \<longleftrightarrow> bit m (Suc k)"
      using step by (simp add: bit_Suc)
    moreover have "\<exists>j<Suc k. bit m j" using True by (auto simp: bit_0 intro!: exI [of _ 0])
    ultimately show ?thesis by simp
  next
    case False
    then have pos: "0 < m div 2" using Suc.prems by (auto elim!: evenE)
    have "(m - 1) div 2 = m div 2 - 1" using False Suc.prems by (auto elim!: evenE)
    then have "bit (m AND (m - 1)) (Suc k) \<longleftrightarrow> bit (m div 2) k \<and> (\<exists>j<k. bit (m div 2) j)"
      using step Suc.IH [OF pos] by simp
    moreover have "(\<exists>j<k. bit (m div 2) j) \<longleftrightarrow> (\<exists>j<Suc k. bit m j)"
    proof
      assume "\<exists>j<k. bit (m div 2) j"
      then obtain j where "j < k" "bit (m div 2) j" by blast
      then have "Suc j < Suc k" "bit m (Suc j)" by (simp_all add: bit_Suc)
      then show "\<exists>j<Suc k. bit m j" by blast
    next
      assume "\<exists>j<Suc k. bit m j"
      then obtain j where j: "j < Suc k" "bit m j" by blast
      have "\<not> bit m 0" using False by (simp add: bit_0)
      then have "j \<noteq> 0" using j(2) by (cases j) auto
      then obtain j' where "j = Suc j'" by (cases j) auto
      then show "\<exists>j<k. bit (m div 2) j" using j by (auto simp: bit_Suc)
    qed
    ultimately show ?thesis by (simp add: bit_Suc)
  qed
qed

lemma bit_and_decr_word:
  fixes w :: "64 word"
  assumes "w \<noteq> 0"
  shows "bit (w AND (w - 1)) k \<longleftrightarrow> bit w k \<and> (\<exists>j<k. bit w j)"
proof -
  have pos: "0 < unat w" using assms by (simp add: unat_gt_0)
  have "unat (w AND (w - 1)) = unat w AND (unat w - 1)"
    using assms by (simp add: unsigned_and_eq unat_minus_one)
  then have "bit (w AND (w - 1)) k \<longleftrightarrow> bit (unat w AND (unat w - 1)) k"
    by (metis bit_unsigned_iff possible_bit_nat)
  also have "\<dots> \<longleftrightarrow> bit (unat w) k \<and> (\<exists>j<k. bit (unat w) j)"
    by (rule bit_and_decr_nat [OF pos])
  finally show ?thesis by (simp add: bit_unsigned_iff)
qed

lemma ctzll_props:
  assumes "w \<noteq> 0"
  shows "ctzll w < 64" and "bit w (ctzll w)" and "\<And>k. k < ctzll w \<Longrightarrow> \<not> bit w k"
proof -
  let ?P = "\<lambda>k. \<not> bit w k"
  have "\<exists>k<64. bit w k"
  proof (rule ccontr)
    assume "\<not> (\<exists>k<64. bit w k)"
    then have "w = 0" by (intro bit_word_eqI) simp
    then show False using assms by simp
  qed
  then have "takeWhile ?P [0..<64] \<noteq> [0..<64]"
    by (auto simp: takeWhile_eq_all_conv)
  moreover have "length (takeWhile ?P [0..<64]) \<le> length [0..<64]"
    by (rule length_takeWhile_le)
  ultimately have lt: "length (takeWhile ?P [0..<64]) < length [0..<64]"
    by (metis le_neq_implies_less takeWhile_eq_take take_all_iff order_refl)
  then show c: "ctzll w < 64" by (simp add: ctzll_def)
  have "\<not> ?P ([0..<64] ! length (takeWhile ?P [0..<64]))"
    using lt by (rule nth_length_takeWhile)
  then show "bit w (ctzll w)" using c by (simp add: ctzll_def)
  show "\<not> bit w k" if "k < ctzll w" for k
  proof -
    have "takeWhile ?P [0..<64] ! k \<in> set (takeWhile ?P [0..<64])"
      using that by (simp add: ctzll_def)
    then have "?P (takeWhile ?P [0..<64] ! k)" by (rule set_takeWhileD [THEN conjunct2])
    moreover have "takeWhile ?P [0..<64] ! k = [0..<64] ! k"
      using that by (intro takeWhile_nth) (simp add: ctzll_def)
    ultimately show ?thesis using that c by simp
  qed
qed

lemma setbits_lowest:
  assumes "w \<noteq> 0"
  shows "setbits w = ctzll w # setbits (w AND (w - 1))"
proof -
  let ?c = "ctzll w"
  let ?w = "w AND (w - 1)"
  note c = ctzll_props [OF assms]
  have split: "[0..<64] = [0..<?c] @ ?c # [Suc ?c..<64]"
    using c(1) by (metis le_add_diff_inverse less_imp_le_nat upt_add_eq_append upt_conv_Cons zero_le)
  have low: "filter (bit w) [0..<?c] = []" using c(3) by (auto simp: filter_empty_conv)
  have low': "filter (bit ?w) [0..<?c] = []"
    using c(3) by (auto simp: filter_empty_conv bit_and_decr_word [OF assms])
  have mid': "\<not> bit ?w ?c" using c(3) by (auto simp: bit_and_decr_word [OF assms])
  have high: "filter (bit ?w) [Suc ?c..<64] = filter (bit w) [Suc ?c..<64]"
  proof (rule filter_cong [OF refl])
    fix k assume "k \<in> set [Suc ?c..<64]"
    then have "?c < k" by simp
    then show "bit ?w k = bit w k" using c(2) by (auto simp: bit_and_decr_word [OF assms])
  qed
  have "setbits w = ?c # filter (bit w) [Suc ?c..<64]"
    unfolding setbits_def by (subst split) (simp add: low c(2))
  moreover have "setbits ?w = filter (bit w) [Suc ?c..<64]"
    unfolding setbits_def by (subst split) (simp add: low' mid' high)
  ultimately show ?thesis by simp
qed

lemma setbits_empty: "setbits w = [] \<longleftrightarrow> w = 0"
proof
  assume "setbits w = []"
  then have "\<forall>k<64. \<not> bit w k" by (auto simp: setbits_def filter_empty_conv)
  then show "w = 0" by (intro bit_word_eqI) simp
next
  assume "w = 0"
  then show "setbits w = []" by (simp add: setbits_def)
qed

lemma setbits_less: "k \<in> set (setbits w) \<Longrightarrow> k < 64"
  by (simp add: setbits_def)

text \<open>What a step did to the output buffer: from the offset \<open>n\<close> on it holds the entries
  \<open>vs\<close>, what lies before \<open>n\<close> is kept, and so is what lies \<open>S\<close> entries or more after
  them.\<close>

definition appended :: "int list \<Rightarrow> nat \<Rightarrow> int list \<Rightarrow> nat \<Rightarrow> int list \<Rightarrow> bool" where
  "appended out n vs S out' \<longleftrightarrow>
     length out' = length out \<and> n + length vs \<le> length out
     \<and> take (n + length vs) out' = take n out @ vs
     \<and> drop (n + length vs + S) out' = drop (n + length vs + S) out"

lemma appended_refl: "n \<le> length out \<Longrightarrow> appended out n [] S out"
  by (simp add: appended_def)

lemma appended_mono:
  assumes "appended out n vs S out'" "S \<le> T"
  shows "appended out n vs T out'"
proof -
  have "drop (n + length vs + S) out' = drop (n + length vs + S) out"
    using assms(1) by (simp add: appended_def)
  then have "drop (T - S) (drop (n + length vs + S) out') = drop (T - S) (drop (n + length vs + S) out)"
    by simp
  then have "drop (n + length vs + T) out' = drop (n + length vs + T) out"
    using assms(2) by (simp add: add.commute add.left_commute)
  then show ?thesis using assms(1) by (simp add: appended_def)
qed

lemma appended_trans:
  assumes "appended out n vs S out1" "appended out1 (n + length vs) ws S out2"
  shows "appended out n (vs @ ws) S out2"
proof -
  have len: "length out1 = length out" "length out2 = length out1"
    and b1: "n + length vs \<le> length out" and b2: "n + length vs + length ws \<le> length out1"
    and t1: "take (n + length vs) out1 = take n out @ vs"
    and t2: "take (n + length vs + length ws) out2 = take (n + length vs) out1 @ ws"
    and d1: "drop (n + length vs + S) out1 = drop (n + length vs + S) out"
    and d2: "drop (n + length vs + length ws + S) out2 = drop (n + length vs + length ws + S) out1"
    using assms by (simp_all add: appended_def)
  have "drop (length ws) (drop (n + length vs + S) out1)
      = drop (length ws) (drop (n + length vs + S) out)"
    using d1 by simp
  then have "drop (n + length vs + length ws + S) out1 = drop (n + length vs + length ws + S) out"
    by (simp add: add.commute add.left_commute)
  then show ?thesis
    using len b2 t1 t2 d2 by (simp add: appended_def add.assoc)
qed

lemma store_at_appended:
  assumes "n + length vs \<le> length out"
  shows "store_at out n vs = Some (take n out @ vs @ drop (n + length vs) out)"
    and "appended out n vs 0 (take n out @ vs @ drop (n + length vs) out)"
  using assms by (simp_all add: store_at_def appended_def)

declare upt_rec_numeral [simp del]

lemma sparse_bits_appended:
  assumes "w \<noteq> 0" "0 \<le> row" "row + 63 < 2 ^ 31" "n + length (setbits w) \<le> length out"
  shows "\<exists>out'. sparse_bits w row out n = Some (out', n + length (setbits w))
           \<and> appended out n (map (\<lambda>k. int k + row) (setbits w)) 0 out'"
  using assms(1,4)
proof (induction "length (setbits w)" arbitrary: w out n)
  case 0
  then show ?case by (simp add: setbits_empty)
next
  case (Suc d)
  let ?c = "ctzll w"
  let ?w = "w AND (w - 1)"
  have sb: "setbits w = ?c # setbits ?w" using Suc.prems(1) by (rule setbits_lowest)
  have c: "?c < 64" using Suc.prems(1) by (rule ctzll_props)
  have v: "int32 (int ?c + row) = int ?c + row"
    using c assms(2,3) by (intro int32_id) simp_all
  let ?out = "take n out @ [int ?c + row] @ drop (n + 1) out"
  have cap: "n + length [int ?c + row] \<le> length out" using Suc.prems(2) sb by simp
  have st: "store_at out n [int ?c + row] = Some ?out"
    and ap: "appended out n [int ?c + row] 0 ?out"
    using store_at_appended [OF cap] by simp_all
  have unfold: "sparse_bits w row out n =
      (if ?w \<noteq> 0 then sparse_bits ?w row ?out (Suc n) else Some (?out, Suc n))"
    by (subst sparse_bits.simps) (simp add: v st)
  show ?case
  proof (cases "?w = 0")
    case True
    then have "setbits ?w = []" by (simp add: setbits_empty)
    then show ?thesis using unfold True ap sb by simp
  next
    case False
    have d: "d = length (setbits ?w)" using Suc.hyps(2) sb by simp
    have "length ?out = length out" using cap by simp
    then have cap': "Suc n + length (setbits ?w) \<le> length ?out" using Suc.prems(2) sb by simp
    from Suc.hyps(1) [OF d False cap']
    obtain out' where r: "sparse_bits ?w row ?out (Suc n) = Some (out', Suc n + length (setbits ?w))"
      and ap': "appended ?out (Suc n) (map (\<lambda>k. int k + row) (setbits ?w)) 0 out'"
      by blast
    have "appended out n ([int ?c + row] @ map (\<lambda>k. int k + row) (setbits ?w)) 0 out'"
      using ap ap' by (intro appended_trans [where ?out1.0 = ?out]) simp_all
    then show ?thesis using unfold False r sb by simp
  qed
qed

text \<open>A batch stored at \<open>n\<close> whose first entries are \<open>vs\<close>, \<open>result\<close> moving by their number.\<close>

lemma store_at_batch:
  assumes "vs \<noteq> []" "length ws = Suc S" "take (length vs) ws = vs"
    and "n + length vs + S \<le> length out"
  shows "\<exists>out'. store_at out n ws = Some out' \<and> appended out n vs S out'"
proof -
  have lv: "length vs \<le> Suc S" using assms(2) arg_cong [OF assms(3), of length] by simp
  have pos: "1 \<le> length vs" using assms(1) by (cases vs) auto
  have cap: "n + length ws \<le> length out" using assms(2,4) pos by simp
  let ?out = "take n out @ ws @ drop (n + length ws) out"
  have st: "store_at out n ws = Some ?out" using cap by (simp add: store_at_def)
  have tk: "take (n + length vs) ?out = take n out @ vs"
    using cap lv assms(2,3) by simp
  have e: "n + length vs + S = n + length ws + (length vs - 1)"
    using assms(2) pos by simp
  have "drop (n + length ws + k) ?out = drop (n + length ws + k) out" for k
    using cap by (simp add: ac_simps)
  then have dr: "drop (n + length vs + S) ?out = drop (n + length vs + S) out"
    unfolding e .
  have "appended out n vs S ?out"
    using cap tk dr assms(4) by (simp add: appended_def)
  then show ?thesis using st by blast
qed

text \<open>The offsets of the set bits of a byte, and its two halves.\<close>

definition byte_bits :: "8 word \<Rightarrow> nat list" where
  "byte_bits b = filter (bit b) [0..<8]"

lemma setBitOffsets_byte: "setBitOffsets (unat b) = map int (byte_bits b)"
proof -
  have "bit (unat b) = bit b" by (auto simp: bit_unsigned_iff)
  then show ?thesis by (simp add: setBitOffsets_def byte_bits_def)
qed

lemma popcount_bits:
  assumes "\<And>k. 8 \<le> k \<Longrightarrow> \<not> bit m k"
  shows "popcount m = length (filter (bit m) [0..<8])"
proof -
  have "[0..<32] = [0..<8] @ [8..<32]"
    using upt_add_eq_append [of 0 8 24] by (simp del: upt_rec_numeral)
  moreover have "filter (bit m) [8..<32] = []"
    using assms by (simp add: filter_empty_conv del: upt_rec_numeral)
  ultimately show ?thesis by (simp add: popcount_def del: upt_rec_numeral)
qed

lemma popcount_byte: "popcount (uint b) = length (byte_bits b)" for b :: "8 word"
proof -
  have "\<not> bit (uint b) k" if "8 \<le> k" for k
    using that by (auto simp: bit_unsigned_iff dest: bit_imp_le_length)
  then have "popcount (uint b) = length (filter (bit (uint b)) [0..<8])" by (rule popcount_bits)
  moreover have "bit (uint b) = bit b" by (auto simp: bit_unsigned_iff)
  ultimately show ?thesis by (simp add: byte_bits_def)
qed

lemma byte_bits_empty: "byte_bits b = [] \<longleftrightarrow> b = 0"
proof
  assume "byte_bits b = []"
  then have "\<forall>k<8. \<not> bit b k" by (auto simp: byte_bits_def filter_empty_conv)
  then show "b = 0" by (intro bit_word_eqI) simp
next
  assume "b = 0"
  then show "byte_bits b = []" by (simp add: byte_bits_def)
qed

lemma row_prefix:
  "take (length (byte_bits b)) (byteSetBits_row fill (unat b)) = map int (byte_bits b)"
  by (simp add: byteSetBits_row_def setBitOffsets_byte)

lemma add_row_prefix:
  assumes "0 \<le> row" "row + 7 < 2 ^ 31" "take (length vs) ws = map int vs" "\<And>k. k \<in> set vs \<Longrightarrow> k < 8"
  shows "take (length vs) (add_row row ws) = map (\<lambda>k. int k + row) vs"
proof -
  have "take (length vs) (add_row row ws) = add_row row (map int vs)"
    using assms(3) by (simp add: add_row_def take_map)
  also have "\<dots> = map (\<lambda>k. int32 (int k + row)) vs" by (simp add: add_row_def comp_def)
  also have "\<dots> = map (\<lambda>k. int k + row) vs"
  proof (rule map_cong [OF refl])
    fix k assume "k \<in> set vs"
    then have "k < 8" by (rule assms(4))
    then show "int32 (int k + row) = int k + row"
      using assms(1,2) by (intro int32_id) simp_all
  qed
  finally show ?thesis .
qed

lemma byte_bits_less: "k \<in> set (byte_bits b) \<Longrightarrow> k < 8"
  by (simp add: byte_bits_def)

lemma length_add_row: "length (add_row row ws) = length ws"
  by (simp add: add_row_def)

lemma store_byte_32:
  assumes "b \<noteq> 0" "0 \<le> row" "row + 7 < 2 ^ 31" "n + length (byte_bits b) + 7 \<le> length out"
  shows "\<exists>out'. store_byte fill generic32 b row out n = Some (out', n + length (byte_bits b))
           \<and> appended out n (map (\<lambda>k. int k + row) (byte_bits b)) 7 out'"
proof -
  let ?ws = "add_row row (take 8 (byteSetBits_row fill (unat b)))"
  let ?vs = "map (\<lambda>k. int k + row) (byte_bits b)"
  have ne: "?vs \<noteq> []" using assms(1) by (simp add: byte_bits_empty)
  have len: "length ?ws = Suc 7" by (simp add: length_add_row byteSetBits_row_length)
  have "take (length (byte_bits b)) (add_row row (byteSetBits_row fill (unat b))) = ?vs"
    using assms(2,3) row_prefix byte_bits_less by (rule add_row_prefix)
  then have pre: "take (length ?vs) ?ws = ?vs" by (simp add: byteSetBits_row_length)
  have cap: "n + length ?vs + 7 \<le> length out" using assms(4) by simp
  from store_at_batch [OF ne len pre cap]
  obtain out' where "store_at out n ?ws = Some out'" "appended out n ?vs 7 out'" by blast
  then show ?thesis by (simp add: popcount_byte)
qed

lemma byte_bits_halves:
  "byte_bits b = filter (bit b) [0..<4] @ filter (bit b) [4..<8]"
proof -
  have "[0..<8] = [0..<4] @ [4..<8]"
    using upt_add_eq_append [of 0 4 4] by (simp del: upt_rec_numeral)
  then show ?thesis by (simp add: byte_bits_def del: upt_rec_numeral)
qed

lemma lo_bits: "byte_bits (b AND 15) = filter (bit b) [0..<4]"
proof -
  have e: "(15 :: 8 word) = mask 4" by (simp add: mask_eq_exp_minus_1)
  have bit: "bit (b AND 15) k \<longleftrightarrow> bit b k \<and> k < 4" for k
    unfolding e by (auto simp: bit_and_iff bit_mask_iff)
  have "filter (bit (b AND 15)) [0..<4] = filter (bit b) [0..<4]"
    by (rule filter_cong [OF refl]) (simp add: bit)
  moreover have "filter (bit (b AND 15)) [4..<8] = []"
    by (simp add: filter_empty_conv bit)
  ultimately show ?thesis by (simp add: byte_bits_halves [of "b AND 15"] del: upt_rec_numeral)
qed

lemma hi_bits: "map (\<lambda>k. k + 4) (byte_bits (drop_bit 4 b)) = filter (bit b) [4..<8]"
proof -
  have bit: "bit (drop_bit 4 b) k \<longleftrightarrow> bit b (k + 4)" for k
    by (simp add: bit_drop_bit_eq add.commute)
  have "\<not> bit b (k + 4)" if "4 \<le> k" for k
    using that bit_imp_le_length [of b "k + 4"] by auto
  then have "filter (bit (drop_bit 4 b)) [4..<8] = []"
    by (simp add: filter_empty_conv bit del: upt_rec_numeral)
  moreover have "filter (bit (drop_bit 4 b)) [0..<4] = filter (\<lambda>k. bit b (k + 4)) [0..<4]"
    by (rule filter_cong [OF refl]) (simp add: bit)
  ultimately have "byte_bits (drop_bit 4 b) = filter (\<lambda>k. bit b (k + 4)) [0..<4]"
    by (simp add: byte_bits_halves [of "drop_bit 4 b"])
  moreover have "[4..<8] = map (\<lambda>k. k + 4) [0..<4]"
    using map_add_upt [of 4 4] by (simp del: upt_rec_numeral)
  ultimately show ?thesis by (simp add: filter_map comp_def del: upt_rec_numeral)
qed

lemma hi_bits_length: "length (byte_bits (drop_bit 4 b)) = length (filter (bit b) [4..<8])"
  using arg_cong [OF hi_bits [of b], of length] by (simp del: upt_rec_numeral)

lemma store_byte_16:
  assumes "b \<noteq> 0" "0 \<le> row" "row + 7 < 2 ^ 31" "n + length (byte_bits b) + 3 \<le> length out"
  shows "\<exists>out'. store_byte fill generic16 b row out n = Some (out', n + length (byte_bits b))
           \<and> appended out n (map (\<lambda>k. int k + row) (byte_bits b)) 3 out'"
proof -
  let ?row = "byteSetBits_row fill (unat b)"
  let ?lo = "filter (bit b) [0..<4]"
  let ?hi = "filter (bit b) [4..<8]"
  let ?f = "\<lambda>k. int k + row"
  have bb: "byte_bits b = ?lo @ ?hi" by (rule byte_bits_halves)
  have lo_len: "length ?lo \<le> 4" using length_filter_le [of "bit b" "[0..<4]"] by simp
  have hi_len: "length ?hi \<le> 4" using length_filter_le [of "bit b" "[4..<8]"] by simp
  have pop_lo: "popcount (uint (b AND 15)) = length ?lo" by (simp add: popcount_byte lo_bits)
  have pop_hi: "popcount (uint (drop_bit 4 b)) = length ?hi"
    by (simp only: popcount_byte hi_bits_length)
  have lo0: "b AND 15 = 0 \<longleftrightarrow> ?lo = []" by (simp add: lo_bits flip: byte_bits_empty)
  have hi0: "drop_bit 4 b = 0 \<longleftrightarrow> ?hi = []"
    using hi_bits_length [of b] byte_bits_empty [of "drop_bit 4 b"]
    by (simp only: length_0_conv [symmetric])
  have pre: "take (length (byte_bits b)) ?row = map int (byte_bits b)" by (rule row_prefix)
  have pre_lo: "take (length ?lo) (take 4 ?row) = map int ?lo"
  proof -
    have "take (length ?lo) (take (length (byte_bits b)) ?row) = map int ?lo"
      unfolding pre by (simp add: bb)
    then show ?thesis using lo_len by (simp add: bb min_def)
  qed
  have pre_hi: "take (length ?hi) (take 4 (drop (length ?lo) ?row)) = map int ?hi"
  proof -
    have "drop (length ?lo) (take (length (byte_bits b)) ?row) = map int ?hi"
      unfolding pre by (simp add: bb)
    then have "take (length ?hi) (drop (length ?lo) ?row) = map int ?hi"
      by (simp add: bb drop_take)
    then show ?thesis using hi_len by (simp add: min_def)
  qed
  have less: "\<And>k. k \<in> set ?lo \<Longrightarrow> k < 8" "\<And>k. k \<in> set ?hi \<Longrightarrow> k < 8" by simp_all
  have lo: "\<exists>out1. (if b AND 15 \<noteq> 0
               then (case store_at out n (add_row row (take 4 ?row)) of
                       None \<Rightarrow> None
                     | Some out' \<Rightarrow> Some (out', popcount (uint (b AND 15))))
               else Some (out, 0)) = Some (out1, length ?lo)
             \<and> appended out n (map ?f ?lo) 3 out1"
  proof (cases "?lo = []")
    case True
    then show ?thesis using lo0 assms(4) by (simp add: appended_refl)
  next
    case False
    let ?ws = "add_row row (take 4 ?row)"
    have ne: "map ?f ?lo \<noteq> []" using False by simp
    have len: "length ?ws = Suc 3" by (simp add: length_add_row byteSetBits_row_length)
    have "take (length ?lo) ?ws = map ?f ?lo"
      using assms(2,3) pre_lo less(1) by (rule add_row_prefix)
    then have p: "take (length (map ?f ?lo)) ?ws = map ?f ?lo" by simp
    have cap: "n + length (map ?f ?lo) + 3 \<le> length out" using assms(4) by (simp add: bb)
    from store_at_batch [OF ne len p cap]
    obtain out1 where "store_at out n ?ws = Some out1" "appended out n (map ?f ?lo) 3 out1"
      by blast
    then show ?thesis using False lo0 pop_lo by simp
  qed
  then obtain out1 where lo_eq: "(if b AND 15 \<noteq> 0
               then (case store_at out n (add_row row (take 4 ?row)) of
                       None \<Rightarrow> None
                     | Some out' \<Rightarrow> Some (out', popcount (uint (b AND 15))))
               else Some (out, 0)) = Some (out1, length ?lo)"
    and ap1: "appended out n (map ?f ?lo) 3 out1"
    by blast
  have len1: "length out1 = length out" using ap1 by (simp add: appended_def)
  have hi: "\<exists>out2. (if drop_bit 4 b \<noteq> 0
             then (case store_at out1 (n + length ?lo)
                          (add_row row (take 4 (drop (length ?lo) ?row))) of
                     None \<Rightarrow> None
                   | Some out'' \<Rightarrow> Some (out'', n + length ?lo + popcount (uint (drop_bit 4 b))))
             else Some (out1, n + length ?lo)) = Some (out2, n + length (byte_bits b))
           \<and> appended out1 (n + length (map ?f ?lo)) (map ?f ?hi) 3 out2"
  proof (cases "?hi = []")
    case True
    then show ?thesis using hi0 assms(4) len1 by (simp add: appended_refl bb)
  next
    case False
    let ?ws = "add_row row (take 4 (drop (length ?lo) ?row))"
    have ne: "map ?f ?hi \<noteq> []" using False by simp
    have len: "length ?ws = Suc 3"
      using lo_len by (simp add: length_add_row byteSetBits_row_length)
    have "take (length ?hi) ?ws = map ?f ?hi"
      using assms(2,3) pre_hi less(2) by (rule add_row_prefix)
    then have p: "take (length (map ?f ?hi)) ?ws = map ?f ?hi" by simp
    have cap: "n + length ?lo + length (map ?f ?hi) + 3 \<le> length out1"
      using assms(4) len1 by (simp add: bb)
    from store_at_batch [OF ne len p cap]
    obtain out2 where "store_at out1 (n + length ?lo) ?ws = Some out2"
      "appended out1 (n + length ?lo) (map ?f ?hi) 3 out2"
      by blast
    then show ?thesis using False hi0 pop_hi by (simp add: bb)
  qed
  then obtain out2 where hi_eq: "(if drop_bit 4 b \<noteq> 0
             then (case store_at out1 (n + length ?lo)
                          (add_row row (take 4 (drop (length ?lo) ?row))) of
                     None \<Rightarrow> None
                   | Some out'' \<Rightarrow> Some (out'', n + length ?lo + popcount (uint (drop_bit 4 b))))
             else Some (out1, n + length ?lo)) = Some (out2, n + length (byte_bits b))"
    and ap2: "appended out1 (n + length (map ?f ?lo)) (map ?f ?hi) 3 out2"
    by blast
  have "appended out n (map ?f ?lo @ map ?f ?hi) 3 out2"
    using ap1 ap2 by (rule appended_trans)
  then have ap: "appended out n (map ?f (byte_bits b)) 3 out2" by (simp add: bb)
  have "store_byte fill generic16 b row out n = Some (out2, n + length (byte_bits b))"
    by (simp add: Let_def lo_eq hi_eq del: upt_Suc)
  then show ?thesis using ap by blast
qed

declare dense_bytes.simps [simp del] sparse_bits.simps [simp del] word_loop.simps [simp del]

text \<open>The lanes of a batch of \<open>int32_t\<close> less one: the entries that a store of the dense
  strategy can reach behind the set bits it counts.\<close>

definition slack :: "arch \<Rightarrow> nat" where
  "slack a = batch_size a 4 - 1"

lemma store_byte_appended:
  assumes "b \<noteq> 0" "0 \<le> row" "row + 7 < 2 ^ 31" "n + length (byte_bits b) + slack a \<le> length out"
  shows "\<exists>out'. store_byte fill a b row out n = Some (out', n + length (byte_bits b))
           \<and> appended out n (map (\<lambda>k. int k + row) (byte_bits b)) (slack a) out'"
proof (cases a)
  case generic16
  then have "slack a = 3" by (simp add: slack_def batch_size_def)
  then show ?thesis using store_byte_16 [OF assms(1-3), of n out fill] assms(4) generic16 by simp
next
  case generic32
  then have "slack a = 7" by (simp add: slack_def batch_size_def)
  then show ?thesis using store_byte_32 [OF assms(1-3), of n out fill] assms(4) generic32 by simp
qed

text \<open>The set bits of the low \<open>8 * m\<close> positions of a word, byte by byte.\<close>

lemma low_byte_bits: "byte_bits (ucast w) = filter (bit w) [0..<8]" for w :: "64 word"
proof -
  have "filter (bit (ucast w :: 8 word)) [0..<8] = filter (bit w) [0..<8]"
    by (rule filter_cong [OF refl]) (simp add: bit_ucast_iff)
  then show ?thesis by (simp add: byte_bits_def)
qed

lemma bits_split_byte:
  "filter (bit w) [0..<8 * Suc m]
     = filter (bit w) [0..<8] @ map (\<lambda>k. k + 8) (filter (bit (drop_bit 8 w)) [0..<8 * m])"
  for w :: "64 word"
proof -
  have "[0..<8 * Suc m] = [0..<8] @ [8..<8 + 8 * m]"
    using upt_add_eq_append [of 0 8 "8 * m"] by simp
  moreover have "[8..<8 + 8 * m] = map (\<lambda>k. k + 8) [0..<8 * m]"
    using map_add_upt [of 8 "8 * m"] by (simp add: add.commute)
  moreover have "bit w \<circ> (\<lambda>k. k + 8) = bit (drop_bit 8 w)"
    by (rule ext) (simp add: bit_drop_bit_eq add.commute)
  ultimately show ?thesis by (simp add: filter_map)
qed

lemma dense_bytes_appended:
  fixes w :: "64 word"
  assumes "c \<le> 8" "0 \<le> row" "row + 8 * int (8 - c) < 2 ^ 31"
    and "n + length (filter (bit w) [0..<8 * (8 - c)]) + slack a \<le> length out"
  shows "\<exists>out'. dense_bytes fill a c w row out n
             = Some (row + 8 * int (8 - c), out', n + length (filter (bit w) [0..<8 * (8 - c)]))
           \<and> appended out n (map (\<lambda>k. int k + row) (filter (bit w) [0..<8 * (8 - c)]))
                (slack a) out'"
  using assms
proof (induction "8 - c" arbitrary: c w row out n)
  case 0
  then have c: "c = 8" by simp
  have "dense_bytes fill a 8 w row out n = Some (row, out, n)"
    by (subst dense_bytes.simps) simp
  then show ?case using c "0.prems"(4) by (simp add: appended_refl)
next
  case (Suc m)
  then have c: "c < 8" and m: "8 - c = Suc m" "m = 8 - Suc c" by simp_all
  let ?b = "ucast w :: 8 word"
  let ?w = "drop_bit 8 w"
  let ?lo = "filter (bit w) [0..<8]"
  let ?hi = "filter (bit ?w) [0..<8 * m]"
  let ?f = "\<lambda>k. int k + row"
  have split: "filter (bit w) [0..<8 * (8 - c)] = ?lo @ map (\<lambda>k. k + 8) ?hi"
    unfolding m(1) by (rule bits_split_byte)
  have lo: "byte_bits ?b = ?lo" by (rule low_byte_bits)
  have row8: "int32 (row + 8) = row + 8"
    using Suc.prems(2,3) m(1) by (intro int32_id) simp_all
  have maps: "map ?f (map (\<lambda>k. k + 8) ?hi) = map (\<lambda>k. int k + (row + 8)) ?hi"
    by simp
  have cap: "n + length ?lo + length ?hi + slack a \<le> length out"
    using Suc.prems(4) by (simp add: split)
  have unfold: "dense_bytes fill a c w row out n =
      (if ?b \<noteq> 0 then
         (case store_byte fill a ?b row out n of
            None \<Rightarrow> None
          | Some (out', n') \<Rightarrow> dense_bytes fill a (Suc c) ?w (row + 8) out' n')
       else dense_bytes fill a (Suc c) ?w (row + 8) out n)"
    by (subst dense_bytes.simps, unfold row8) (simp add: c)
  have pre: "Suc c \<le> 8" "0 \<le> row + 8" "row + 8 + 8 * int (8 - Suc c) < 2 ^ 31"
    using c Suc.prems(2,3) m by simp_all
  have rowfin: "row + 8 + 8 * int (8 - Suc c) = row + 8 * int (8 - c)" using m by simp
  have rf: "8 + 8 * int (7 - c) = 8 * int (8 - c)" using c by (simp add: of_nat_diff)
  show ?case
  proof (cases "?b = 0")
    case True
    then have "byte_bits ?b = []" by (simp only: byte_bits_empty)
    then have lo0: "?lo = []" by (simp only: lo)
    have cap': "n + length (filter (bit ?w) [0..<8 * (8 - Suc c)]) + slack a \<le> length out"
      using cap m(2) by simp
    from Suc.hyps(1) [OF m(2) pre cap']
    obtain out' where
      "dense_bytes fill a (Suc c) ?w (row + 8) out n
         = Some (row + 8 + 8 * int (8 - Suc c), out', n + length ?hi)"
      "appended out n (map (\<lambda>k. int k + (row + 8)) ?hi) (slack a) out'"
      unfolding m(2) [symmetric] by blast
    then show ?thesis using unfold True by (simp add: split lo0 rf maps del: map_map)
  next
    case False
    have r7: "row + 7 < 2 ^ 31" using Suc.prems(3) m(1) by simp
    have capb: "n + length (byte_bits ?b) + slack a \<le> length out" using cap lo by simp
    from store_byte_appended [OF False Suc.prems(2) r7 capb]
    obtain out1 where s1: "store_byte fill a ?b row out n = Some (out1, n + length ?lo)"
      and a1: "appended out n (map ?f ?lo) (slack a) out1"
      unfolding lo by blast
    have len1: "length out1 = length out" using a1 by (simp add: appended_def)
    have cap': "n + length ?lo + length (filter (bit ?w) [0..<8 * (8 - Suc c)]) + slack a
        \<le> length out1"
      using cap m(2) len1 by simp
    from Suc.hyps(1) [OF m(2) pre cap']
    obtain out' where d: "dense_bytes fill a (Suc c) ?w (row + 8) out1 (n + length ?lo)
         = Some (row + 8 + 8 * int (8 - Suc c), out', n + length ?lo + length ?hi)"
      and a2: "appended out1 (n + length (map ?f ?lo)) (map (\<lambda>k. int k + (row + 8)) ?hi)
                 (slack a) out'"
      unfolding m(2) [symmetric] by auto
    have "appended out n (map ?f ?lo @ map (\<lambda>k. int k + (row + 8)) ?hi) (slack a) out'"
      using a1 a2 by (rule appended_trans)
    then have "appended out n (map ?f (filter (bit w) [0..<8 * (8 - c)])) (slack a) out'"
      by (simp add: split maps del: map_map)
    moreover have "dense_bytes fill a c w row out n
        = Some (row + 8 * int (8 - c), out', n + length (filter (bit w) [0..<8 * (8 - c)]))"
      using unfold False s1 d by (simp add: split rf)
    ultimately show ?thesis by blast
  qed
qed

lemma dense_word_appended:
  assumes "0 \<le> row" "row + 64 < 2 ^ 31" "n + length (setbits w) + slack a \<le> length out"
  shows "\<exists>out'. dense_bytes fill a 0 w row out n = Some (row + 64, out', n + length (setbits w))
           \<and> appended out n (map (\<lambda>k. int k + row) (setbits w)) (slack a) out'"
  using dense_bytes_appended [of 0 row n w a out fill] assms by (simp add: setbits_def)

text \<open>The two masks.\<close>

lemma bit_lowMask_word:
  "bit (word_of_int (lowMask m) :: 64 word) k \<longleftrightarrow> k < m \<and> k < 64"
proof -
  have "lowMask m = mask m" by (simp add: lowMask_def mask_eq_exp_minus_1)
  then show ?thesis by (auto simp: bit_word_of_int_iff bit_mask_iff)
qed

lemma lowMask64_bits:
  assumes "0 \<le> l" "l < 64"
  shows "\<exists>m. lowMask64 l = Some m \<and> (\<forall>k. bit m k \<longleftrightarrow> k < nat l)"
  using assms by (auto simp: lowMask64_def bit_lowMask_word)

lemma highMask_bits:
  assumes "0 < h" "h < 64"
  shows "\<exists>m. highMask h = Some m \<and> (\<forall>k. bit m k \<longleftrightarrow> 64 - nat h \<le> k \<and> k < 64)"
proof -
  have "bit (push_bit (64 - nat h) (word_of_int (lowMask (nat h)) :: 64 word)) k
      \<longleftrightarrow> 64 - nat h \<le> k \<and> k < 64" for k
    using assms by (auto simp: bit_push_bit_iff bit_lowMask_word dest: bit_imp_le_length)
  then show ?thesis using assms by (simp add: highMask_def)
qed

lemma setbits_cong:
  assumes "\<And>k. k < 64 \<Longrightarrow> bit w k \<longleftrightarrow> Q k"
  shows "setbits w = filter Q [0..<64]"
  unfolding setbits_def by (rule filter_cong [OF refl]) (simp add: assms)

text \<open>The arithmetic of the word indices, for positions that stay in \<open>int32_t\<close>.\<close>

lemma c_div_nonneg: "0 \<le> x \<Longrightarrow> c_div x 64 = x div 64"
  by (cases "x = 0") (simp_all add: c_div_def)

lemma roundUp_64:
  assumes "0 \<le> e" "e \<le> 2 ^ 31 - 64"
  shows "roundUp e 64 = 64 * ((e + 63) div 64)"
proof -
  have a: "int32 (e + 63) = e + 63" using assms by (intro int32_id) simp_all
  have b: "c_div (e + 63) 64 = (e + 63) div 64" using assms by (intro c_div_nonneg) simp
  have "0 \<le> (e + 63) div 64 * 64" "(e + 63) div 64 * 64 \<le> e + 63" using assms by simp_all
  then have "int32 ((e + 63) div 64 * 64) = (e + 63) div 64 * 64"
    using assms by (intro int32_id) simp_all
  then show ?thesis using a b by (simp add: roundUp_def)
qed

lemma endWord_eq:
  assumes "0 \<le> e" "e \<le> 2 ^ 31 - 64"
  shows "c_div (roundUp e 64) 64 = (e + 63) div 64"
proof -
  have "0 \<le> 64 * ((e + 63) div 64)" using assms by simp
  then show ?thesis using assms by (simp add: roundUp_64 c_div_nonneg)
qed

lemma row_start: "b AND NOT 63 = 64 * (b div 64)" for b :: int
proof -
  have m: "(63 :: int) = mask 6" by (simp add: mask_eq_exp_minus_1)
  have "64 * (b div 64) = push_bit 6 (drop_bit 6 b)"
    by (simp add: push_bit_eq_mult drop_bit_eq_div)
  moreover have "b AND NOT (mask 6) = push_bit 6 (drop_bit 6 b)"
    by (rule bit_eqI) (auto simp: bit_and_iff bit_not_iff bit_mask_iff bit_push_bit_iff
        bit_drop_bit_eq)
  ultimately show ?thesis by (simp only: m)
qed

text \<open>Ranges of positions, and the bits of one word among them.\<close>

lemma filter_range: "filter (\<lambda>p. lo \<le> p \<and> p < hi) [x..<y] = [max lo x..<min hi y]"
  by (rule sorted_distinct_set_unique) (auto simp: sorted_wrt_filter)

text \<open>The bit of a bitmap at an absolute position, and the positions of the set bits of
  \<open>[begin, end)\<close> in ascending order: what the scan is to deliver. Then the share of the word
  \<open>j\<close> in them, as offsets into the word, and the positions from the word \<open>j\<close> on.\<close>

definition bit_at :: "64 word list \<Rightarrow> nat \<Rightarrow> bool" where
  "bit_at bits p = bit (bits ! (p div 64)) (p mod 64)"

definition set_positions :: "64 word list \<Rightarrow> int \<Rightarrow> int \<Rightarrow> int list" where
  "set_positions bits begin end = map int (filter (bit_at bits) [nat begin..<nat end])"

definition word_bits :: "64 word list \<Rightarrow> int \<Rightarrow> int \<Rightarrow> nat \<Rightarrow> nat list" where
  "word_bits bits begin end j =
     filter (\<lambda>k. bit (bits ! j) k \<and> begin \<le> 64 * int j + int k \<and> 64 * int j + int k < end)
       [0..<64]"

definition positions_from :: "64 word list \<Rightarrow> int \<Rightarrow> int \<Rightarrow> nat \<Rightarrow> nat list" where
  "positions_from bits begin end j = filter (bit_at bits) [max (nat begin) (64 * j)..<nat end]"

lemma word_bits_positions:
  assumes "0 \<le> begin" "0 \<le> end"
  shows "map (\<lambda>k. k + 64 * j) (word_bits bits begin end j)
       = filter (bit_at bits) [max (nat begin) (64 * j)..<min (nat end) (64 * j + 64)]"
proof -
  let ?Q = "\<lambda>p. nat begin \<le> p \<and> p < nat end"
  have "word_bits bits begin end j
      = filter ((\<lambda>p. ?Q p \<and> bit_at bits p) \<circ> (\<lambda>k. k + 64 * j)) [0..<64]"
    unfolding word_bits_def
  proof (rule filter_cong [OF refl])
    fix k assume "k \<in> set [0..<64]"
    then have k: "k < 64" by simp
    then have "(k + 64 * j) div 64 = j" "(k + 64 * j) mod 64 = k" by simp_all
    moreover have "begin \<le> 64 * int j + int k \<longleftrightarrow> nat begin \<le> k + 64 * j"
      using assms by linarith
    moreover have "64 * int j + int k < end \<longleftrightarrow> k + 64 * j < nat end"
      using assms by linarith
    ultimately show "(bit (bits ! j) k \<and> begin \<le> 64 * int j + int k \<and> 64 * int j + int k < end)
        = ((\<lambda>p. ?Q p \<and> bit_at bits p) \<circ> (\<lambda>k. k + 64 * j)) k"
      by (auto simp: bit_at_def)
  qed
  then have "map (\<lambda>k. k + 64 * j) (word_bits bits begin end j)
      = filter (\<lambda>p. ?Q p \<and> bit_at bits p) (map (\<lambda>k. k + 64 * j) [0..<64])"
    by (simp only: filter_map)
  also have "map (\<lambda>k. k + 64 * j) [0..<64] = [64 * j..<64 * j + 64]"
    using map_add_upt [of "64 * j" 64] by (simp add: add.commute)
  also have "filter (\<lambda>p. ?Q p \<and> bit_at bits p) [64 * j..<64 * j + 64]
      = filter (bit_at bits) (filter ?Q [64 * j..<64 * j + 64])"
    by simp
  also have "filter ?Q [64 * j..<64 * j + 64]
      = [max (nat begin) (64 * j)..<min (nat end) (64 * j + 64)]"
    by (rule filter_range)
  finally show ?thesis .
qed

lemma upt_split: "x \<le> y \<Longrightarrow> y \<le> z \<Longrightarrow> [x..<z] = [x..<y] @ [y..<z]" for x y z :: nat
  using upt_add_eq_append [of x y "z - y"] by simp

lemma positions_from_step:
  assumes "0 \<le> begin" "begin < end" "begin div 64 \<le> int j" "int j < (end + 63) div 64"
  shows "map int (positions_from bits begin end j)
       = map (\<lambda>k. int k + 64 * int j) (word_bits bits begin end j)
         @ map int (positions_from bits begin end (Suc j))"
proof -
  let ?b = "nat begin" and ?e = "nat end"
  have b: "?b < 64 * j + 64" using assms(1,3) by linarith
  have e: "64 * j < ?e" using assms(1,2,4) by linarith
  have be: "?b < ?e" using assms(1,2) by linarith
  let ?lo = "max ?b (64 * j)" and ?mid = "min ?e (64 * j + 64)"
  have "?lo \<le> ?mid" "?mid \<le> ?e" using b e be by linarith+
  then have "[?lo..<?e] = [?lo..<?mid] @ [?mid..<?e]" by (rule upt_split)
  moreover have "[?mid..<?e] = [max ?b (64 * Suc j)..<?e]"
  proof (cases "64 * j + 64 \<le> ?e")
    case True
    have m1: "?mid = 64 * j + 64" using True by linarith
    have s: "64 * Suc j = 64 * j + 64" by simp
    have m2: "max ?b (64 * Suc j) = 64 * j + 64" unfolding s using b by linarith
    show ?thesis by (simp only: m1 m2)
  next
    case False
    have s: "64 * Suc j = 64 * j + 64" by simp
    have le: "?e \<le> ?mid" "?e \<le> max ?b (64 * Suc j)" unfolding s using False by linarith+
    have "[?mid..<?e] = []" using le(1) by (rule upt_conv_Nil)
    moreover have "[max ?b (64 * Suc j)..<?e] = []" using le(2) by (rule upt_conv_Nil)
    ultimately show ?thesis by (simp only:)
  qed
  ultimately have "positions_from bits begin end j
      = filter (bit_at bits) [?lo..<?mid] @ positions_from bits begin end (Suc j)"
    by (simp add: positions_from_def)
  also have "filter (bit_at bits) [?lo..<?mid] = map (\<lambda>k. k + 64 * j) (word_bits bits begin end j)"
    using assms(1,2) by (intro word_bits_positions [symmetric]) simp_all
  finally have "map int (positions_from bits begin end j)
      = map int (map (\<lambda>k. k + 64 * j) (word_bits bits begin end j))
        @ map int (positions_from bits begin end (Suc j))"
    by simp
  then show ?thesis by (simp add: comp_def)
qed

lemma positions_from_end:
  assumes "0 \<le> end" "(end + 63) div 64 \<le> int j"
  shows "positions_from bits begin end j = []"
proof -
  have "nat end \<le> 64 * j" using assms by linarith
  then show ?thesis by (simp add: positions_from_def)
qed

lemma positions_from_first:
  assumes "0 \<le> begin"
  shows "map int (positions_from bits begin end (nat (begin div 64))) = set_positions bits begin end"
proof -
  have "64 * nat (begin div 64) \<le> nat begin" using assms by linarith
  then show ?thesis by (simp add: positions_from_def set_positions_def max_def)
qed

lemma mask_first_bits:
  assumes "0 \<le> begin" "begin < 2 ^ 31" "begin div 64 \<le> int j"
  shows "\<exists>w1. mask_first begin (begin div 64) (int j) w = Some w1
           \<and> (\<forall>k<64. bit w1 k \<longleftrightarrow> bit w k \<and> begin \<le> 64 * int j + int k)"
proof -
  let ?fw = "begin div 64"
  let ?d = "begin - ?fw * 64"
  have fw: "0 \<le> ?fw * 64" "?fw * 64 \<le> begin" using assms(1) by simp_all
  have i1: "int32 (?fw * 64) = ?fw * 64" using fw assms(2) by (intro int32_id) simp_all
  have d: "0 \<le> ?d" "?d < 64" using assms(1) by (simp_all add: minus_div_mult_eq_mod)
  have i2: "int32 ?d = ?d" using d by (intro int32_id) simp_all
  have i3: "int32 (64 - ?d) = 64 - ?d" using d by (intro int32_id) simp_all
  show ?thesis
  proof (cases "int j = ?fw \<and> begin \<noteq> ?fw * 64")
    case True
    then have h: "0 < 64 - ?d" "64 - ?d < 64" using d by simp_all
    from highMask_bits [OF h]
    obtain hm where hm: "highMask (64 - ?d) = Some hm"
      and bits: "\<And>k. bit hm k \<longleftrightarrow> 64 - nat (64 - ?d) \<le> k \<and> k < 64"
      by blast
    have eq: "mask_first begin ?fw (int j) w = Some (w AND hm)"
      unfolding mask_first_def i1 i2 i3 using True hm by simp
    have "bit (w AND hm) k \<longleftrightarrow> bit w k \<and> begin \<le> 64 * int j + int k" if "k < 64" for k
    proof -
      have "64 - nat (64 - ?d) \<le> k \<longleftrightarrow> begin \<le> 64 * int j + int k"
        using True d by linarith
      then show ?thesis using that by (simp add: bit_and_iff bits)
    qed
    then show ?thesis using eq by blast
  next
    case False
    then have eq: "mask_first begin ?fw (int j) w = Some w"
      unfolding mask_first_def i1 by auto
    have "begin \<le> 64 * int j + int k" for k
    proof (cases "int j = ?fw")
      case True
      then show ?thesis using False fw by simp
    next
      case False
      then have "?fw + 1 \<le> int j" using assms(3) by simp
      moreover have "begin < (?fw + 1) * 64" by presburger
      ultimately show ?thesis by linarith
    qed
    then show ?thesis using eq by simp
  qed
qed

lemma mask_last_bits:
  assumes "0 < end" "end \<le> 2 ^ 31 - 64" "0 \<le> int j" "int j < (end + 63) div 64"
  shows "\<exists>w2. mask_last end ((end + 63) div 64) (int j) w = Some w2
           \<and> (\<forall>k<64. bit w2 k \<longleftrightarrow> bit w k \<and> 64 * int j + int k < end)
           \<and> (w2 \<noteq> w \<longrightarrow> int j = (end + 63) div 64 - 1)"
proof -
  let ?E = "(end + 63) div 64"
  let ?l = "end - (?E - 1) * 64"
  have E: "1 \<le> ?E" "?E * 64 \<le> end + 63" "end \<le> ?E * 64" using assms(1) by linarith+
  have i1: "int32 (?E - 1) = ?E - 1" using E assms(2) by (intro int32_id) linarith+
  have e64: "(?E - 1) * 64 = ?E * 64 - 64" by simp
  have lb: "0 \<le> (?E - 1) * 64" "(?E - 1) * 64 < end" using E e64 by linarith+
  have i2: "int32 ((?E - 1) * 64) = (?E - 1) * 64" using lb assms(2) by (intro int32_id) simp_all
  have l: "0 < ?l" "?l \<le> 64" using E e64 by linarith+
  have i3: "int32 ?l = ?l" using l by (intro int32_id) simp_all
  show ?thesis
  proof (cases "int j = ?E - 1 \<and> ?l < 64")
    case True
    then have h: "0 \<le> ?l" "?l < 64" using l by simp_all
    from lowMask64_bits [OF h]
    obtain lm where lm: "lowMask64 ?l = Some lm" and bits: "\<And>k. bit lm k \<longleftrightarrow> k < nat ?l"
      by blast
    have eq: "mask_last end ?E (int j) w = Some (w AND lm)"
      unfolding mask_last_def i1 i2 i3 using True lm by simp
    have "bit (w AND lm) k \<longleftrightarrow> bit w k \<and> 64 * int j + int k < end" for k
    proof -
      have "k < nat ?l \<longleftrightarrow> 64 * int j + int k < end" using True l e64 by linarith
      then show ?thesis by (simp add: bit_and_iff bits)
    qed
    then show ?thesis using eq True by blast
  next
    case False
    then have eq: "mask_last end ?E (int j) w = Some w"
      unfolding mask_last_def i1 i2 i3 by auto
    have "64 * int j + int k < end" if "k < 64" for k
    proof (cases "int j = ?E - 1")
      case True
      then have "64 \<le> ?l" using False by simp
      then show ?thesis using True that e64 by linarith
    next
      case False
      then have "int j + 1 \<le> ?E - 1" using assms(4) by simp
      then show ?thesis using that lb(2) e64 by linarith
    qed
    then show ?thesis using eq by simp
  qed
qed

lemma extract_word_appended:
  assumes "w \<noteq> 0" "0 \<le> row" "row + 64 < 2 ^ 31" "n + length (setbits w) + slack a \<le> length out"
  shows "\<exists>out'. extract_word fill a w row out n = Some (row + 64, out', n + length (setbits w))
           \<and> appended out n (map (\<lambda>k. int k + row) (setbits w)) (slack a) out'"
proof (cases "int n < row div 4")
  case True
  have r: "row + 63 < 2 ^ 31" using assms(3) by simp
  have cap: "n + length (setbits w) \<le> length out" using assms(4) by simp
  have i: "int32 (row + 64) = row + 64" using assms(2,3) by (intro int32_id) simp_all
  from sparse_bits_appended [OF assms(1,2) r cap]
  obtain out' where s: "sparse_bits w row out n = Some (out', n + length (setbits w))"
    and a: "appended out n (map (\<lambda>k. int k + row) (setbits w)) 0 out'"
    by blast
  have "appended out n (map (\<lambda>k. int k + row) (setbits w)) (slack a) out'"
    using a by (rule appended_mono) simp
  then show ?thesis using True s i by (simp add: extract_word_def)
next
  case False
  then show ?thesis using dense_word_appended [OF assms(2-4), of fill]
    by (simp add: extract_word_def)
qed

lemma word_step_result:
  assumes "0 \<le> begin" "begin < end" "end \<le> 2 ^ 31 - 64" "end \<le> 64 * int (length bits)"
    and "begin div 64 \<le> int j" "int j < (end + 63) div 64"
    and "n + length (word_bits bits begin end j) + slack a \<le> length out"
  shows "\<exists>out'. appended out n (map (\<lambda>k. int k + 64 * int j) (word_bits bits begin end j))
                  (slack a) out'
           \<and> (word_step fill a bits begin end (begin div 64) ((end + 63) div 64) (int j)
                 (64 * int j, out, n)
                = Some (Continue (64 * int (Suc j), out', n + length (word_bits bits begin end j)))
              \<or> (\<exists>r. word_step fill a bits begin end (begin div 64) ((end + 63) div 64) (int j)
                       (64 * int j, out, n)
                      = Some (Break (r, out', n + length (word_bits bits begin end j)))
                    \<and> int j = (end + 63) div 64 - 1))"
proof -
  let ?E = "(end + 63) div 64" and ?fw = "begin div 64"
  let ?V = "word_bits bits begin end j"
  let ?w = "bits ! j"
  let ?row = "64 * int j"
  let ?step = "word_step fill a bits begin end ?fw ?E (int j) (?row, out, n)"
  have E: "?E * 64 \<le> end + 63" using assms(1,2) by linarith
  have jl: "j < length bits" using assms(4,6) by linarith
  have row: "0 \<le> ?row" "?row + 64 < 2 ^ 31" using assms(3,6) E by linarith+
  have i: "int32 (?row + 64) = 64 * int (Suc j)" using row by (simp add: int32_id)
  have n: "n \<le> length out" using assms(7) by simp
  have b31: "begin < 2 ^ 31" using assms(2,3) by simp
  have e0: "0 < end" using assms(1,2) by simp
  from mask_first_bits [OF assms(1) b31 assms(5), of ?w]
  obtain w1 where m1: "mask_first begin ?fw (int j) ?w = Some w1"
    and b1: "\<And>k. k < 64 \<Longrightarrow> bit w1 k \<longleftrightarrow> bit ?w k \<and> begin \<le> ?row + int k"
    by blast
  from mask_last_bits [OF e0 assms(3) _ assms(6), of w1]
  obtain w2 where m2: "mask_last end ?E (int j) w1 = Some w2"
    and b2: "\<And>k. k < 64 \<Longrightarrow> bit w2 k \<longleftrightarrow> bit w1 k \<and> ?row + int k < end"
    and last: "w2 \<noteq> w1 \<Longrightarrow> int j = ?E - 1"
    by auto
  have V: "setbits w2 = ?V"
    unfolding word_bits_def by (rule setbits_cong) (auto simp: b1 b2)
  have V1: "?V = []" if "w1 = 0"
  proof -
    have "\<not> (bit ?w k \<and> begin \<le> ?row + int k)" if "k < 64" for k
      using b1 [OF that] \<open>w1 = 0\<close> by simp
    then show ?thesis by (auto simp: word_bits_def filter_empty_conv)
  qed
  have V0: "?V = []" if "?w = 0"
    using that by (simp add: word_bits_def)
  consider "?w = 0" | "?w \<noteq> 0" "w1 = 0" | "?w \<noteq> 0" "w1 \<noteq> 0" "w2 = 0"
    | "?w \<noteq> 0" "w1 \<noteq> 0" "w2 \<noteq> 0"
    by blast
  then show ?thesis
  proof cases
    case 1
    have "?step = Some (Continue (64 * int (Suc j), out, n))"
      unfolding word_step_def i [symmetric] using jl 1 by simp
    then show ?thesis using V0 [OF 1] n by (auto simp: appended_refl)
  next
    case 2
    have "?step = Some (Continue (64 * int (Suc j), out, n))"
      unfolding word_step_def i [symmetric] using jl 2 m1 by simp
    then show ?thesis using V1 [OF 2(2)] n by (auto simp: appended_refl)
  next
    case 3
    have "?step = Some (Break (?row, out, n))"
      unfolding word_step_def i [symmetric] using jl 3 m1 m2 by simp
    moreover have "?V = []" unfolding V [symmetric] using 3(3) by (simp add: setbits_empty)
    moreover have "int j = ?E - 1" using last 3(2,3) by auto
    ultimately show ?thesis using n by (auto simp: appended_refl)
  next
    case 4
    have cap: "n + length (setbits w2) + slack a \<le> length out" using assms(7) V by simp
    from extract_word_appended [OF 4(3) row cap, of fill]
    obtain out' where x: "extract_word fill a w2 ?row out n = Some (?row + 64, out', n + length ?V)"
      and a: "appended out n (map (\<lambda>k. int k + ?row) ?V) (slack a) out'"
      unfolding V by blast
    have "?row + 64 = 64 * int (Suc j)" by simp
    then have "?step = Some (Continue (64 * int (Suc j), out', n + length ?V))"
      unfolding word_step_def using jl 4 m1 m2 x by simp
    then show ?thesis using a by blast
  qed
qed

lemma word_loop_appended:
  assumes "0 \<le> begin" "begin < end" "end \<le> 2 ^ 31 - 64" "end \<le> 64 * int (length bits)"
    and "begin div 64 \<le> int j" "int j \<le> (end + 63) div 64"
    and "n + length (positions_from bits begin end j) + slack a \<le> length out"
  shows "\<exists>r out'. word_loop fill a bits begin end (begin div 64) ((end + 63) div 64) (int j)
                    (64 * int j, out, n)
                   = Some (r, out', n + length (positions_from bits begin end j))
           \<and> appended out n (map int (positions_from bits begin end j)) (slack a) out'"
  using assms(5-7)
proof (induction "nat ((end + 63) div 64) - j" arbitrary: j out n)
  case 0
  then have "(end + 63) div 64 \<le> int j" by linarith
  moreover have "0 \<le> end" using assms(1,2) by simp
  ultimately have P: "positions_from bits begin end j = []"
    by (intro positions_from_end) simp_all
  have "word_loop fill a bits begin end (begin div 64) ((end + 63) div 64) (int j)
           (64 * int j, out, n) = Some (64 * int j, out, n)"
    using \<open>(end + 63) div 64 \<le> int j\<close> by (subst word_loop.simps) simp
  then show ?case using P "0.prems"(3) by (simp add: appended_refl)
next
  case (Suc d)
  let ?E = "(end + 63) div 64" and ?fw = "begin div 64"
  let ?V = "word_bits bits begin end j"
  let ?P = "positions_from bits begin end"
  have j: "int j < ?E" using Suc.hyps(2) by linarith
  have split: "map int (?P j) = map (\<lambda>k. int k + 64 * int j) ?V @ map int (?P (Suc j))"
    using assms(1,2) Suc.prems(1) j by (rule positions_from_step)
  have len: "length (?P j) = length ?V + length (?P (Suc j))"
    using arg_cong [OF split, of length] by simp
  have cap: "n + length ?V + slack a \<le> length out" using Suc.prems(3) len by simp
  have unfold: "word_loop fill a bits begin end ?fw ?E (int j) (64 * int j, out, n) =
      (case word_step fill a bits begin end ?fw ?E (int j) (64 * int j, out, n) of
         None \<Rightarrow> None
       | Some (Break st') \<Rightarrow> Some st'
       | Some (Continue st') \<Rightarrow> word_loop fill a bits begin end ?fw ?E (int j + 1) st')"
    using j by (subst word_loop.simps) simp
  have sj: "int j + 1 = int (Suc j)" by simp
  from word_step_result [OF assms(1-4) Suc.prems(1) j cap, of fill]
  obtain out1 where a1: "appended out n (map (\<lambda>k. int k + 64 * int j) ?V) (slack a) out1"
    and step: "word_step fill a bits begin end ?fw ?E (int j) (64 * int j, out, n)
                = Some (Continue (64 * int (Suc j), out1, n + length ?V))
             \<or> (\<exists>r. word_step fill a bits begin end ?fw ?E (int j) (64 * int j, out, n)
                      = Some (Break (r, out1, n + length ?V))
                   \<and> int j = ?E - 1)"
    by blast
  from step show ?case
  proof
    assume c: "word_step fill a bits begin end ?fw ?E (int j) (64 * int j, out, n)
        = Some (Continue (64 * int (Suc j), out1, n + length ?V))"
    have d: "d = nat ?E - Suc j" using Suc.hyps(2) by simp
    have p: "?fw \<le> int (Suc j)" "int (Suc j) \<le> ?E" using Suc.prems(1) j by simp_all
    have len1: "length out1 = length out" using a1 by (simp add: appended_def)
    have cap1: "n + length ?V + length (?P (Suc j)) + slack a \<le> length out1"
      using Suc.prems(3) len len1 by simp
    from Suc.hyps(1) [OF d p cap1]
    obtain r out' where l: "word_loop fill a bits begin end ?fw ?E (int (Suc j))
          (64 * int (Suc j), out1, n + length ?V)
        = Some (r, out', n + length ?V + length (?P (Suc j)))"
      and a2: "appended out1 (n + length (map (\<lambda>k. int k + 64 * int j) ?V))
                 (map int (?P (Suc j))) (slack a) out'"
      by auto
    have "appended out n (map (\<lambda>k. int k + 64 * int j) ?V @ map int (?P (Suc j))) (slack a) out'"
      using a1 a2 by (rule appended_trans)
    then have "appended out n (map int (?P j)) (slack a) out'" by (simp only: split)
    moreover have "word_loop fill a bits begin end ?fw ?E (int j) (64 * int j, out, n)
        = Some (r, out', n + length (?P j))"
      unfolding unfold c sj using l len by simp
    ultimately show ?thesis by blast
  next
    assume "\<exists>r. word_step fill a bits begin end ?fw ?E (int j) (64 * int j, out, n)
        = Some (Break (r, out1, n + length ?V)) \<and> int j = ?E - 1"
    then obtain r where b: "word_step fill a bits begin end ?fw ?E (int j) (64 * int j, out, n)
        = Some (Break (r, out1, n + length ?V))" and last: "int j = ?E - 1"
      by blast
    have "0 \<le> end" using assms(1,2) by simp
    moreover have "?E \<le> int (Suc j)" using last by simp
    ultimately have "?P (Suc j) = []" by (rule positions_from_end)
    then have "appended out n (map int (?P j)) (slack a) out1" "length (?P j) = length ?V"
      using a1 split len by simp_all
    moreover have "word_loop fill a bits begin end ?fw ?E (int j) (64 * int j, out, n)
        = Some (r, out1, n + length ?V)"
      unfolding unfold b by simp
    ultimately show ?thesis by auto
  qed
qed

lemma set_positions_length: "0 \<le> begin \<Longrightarrow> length (set_positions bits begin end) \<le> nat end"
proof -
  have "length (filter (bit_at bits) [nat begin..<nat end]) \<le> length [nat begin..<nat end]"
    by (rule length_filter_le)
  then show ?thesis by (simp add: set_positions_def)
qed

lemma indicesOfSetBits_appended:
  assumes "0 \<le> begin" "begin \<le> end" "end \<le> 2 ^ 31 - 64" "end \<le> 64 * int (length bits)"
    and "length (set_positions bits begin end) + slack a \<le> length out"
  shows "\<exists>out'. indicesOfSetBits fill a bits begin end out
             = Some (out', int (length (set_positions bits begin end)))
           \<and> appended out 0 (set_positions bits begin end) (slack a) out'"
proof (cases "end \<le> begin")
  case True
  then have "set_positions bits begin end = []" by (simp add: set_positions_def)
  then show ?thesis using True by (simp add: indicesOfSetBits_def appended_refl)
next
  case False
  then have lt: "begin < end" by simp
  let ?fw = "begin div 64" and ?E = "(end + 63) div 64"
  let ?j = "nat ?fw"
  let ?ps = "set_positions bits begin end"
  have e: "0 \<le> end" using assms(1,2) by simp
  have fw: "c_div begin 64 = ?fw" using assms(1) by (rule c_div_nonneg)
  have E: "c_div (roundUp end 64) 64 = ?E" using e assms(3) by (rule endWord_eq)
  have j: "int ?j = ?fw" using assms(1) by simp
  have row: "begin AND NOT 63 = 64 * int ?j" unfolding j by (rule row_start)
  have P: "map int (positions_from bits begin end ?j) = ?ps"
    using assms(1) by (rule positions_from_first)
  have lenP: "length (positions_from bits begin end ?j) = length ?ps"
    using arg_cong [OF P, of length] by simp
  have p: "?fw \<le> int ?j" "int ?j \<le> ?E" using assms(1) lt by linarith+
  have cap: "0 + length (positions_from bits begin end ?j) + slack a \<le> length out"
    using assms(5) lenP by simp
  from word_loop_appended [OF assms(1) lt assms(3,4) p cap, of fill]
  obtain r out' where l: "word_loop fill a bits begin end ?fw ?E ?fw (64 * int ?j, out, 0)
      = Some (r, out', length ?ps)"
    and a: "appended out 0 ?ps (slack a) out'"
    unfolding j P lenP by auto
  have "length ?ps \<le> nat end" using assms(1) by (rule set_positions_length)
  then have "int32 (int (length ?ps)) = int (length ?ps)"
    using assms(3) by (intro int32_id) simp_all
  then have "indicesOfSetBits fill a bits begin end out = Some (out', int (length ?ps))"
    unfolding indicesOfSetBits_def Let_def fw E row l using False by simp
  then show ?thesis using a by blast
qed

lemma set_positions_increasing: "sorted_wrt (<) (set_positions bits begin end)"
  by (simp add: set_positions_def sorted_wrt_map sorted_wrt_filter)

lemma int32_wrap:
  assumes "2 ^ 31 \<le> x" "x < 2 ^ 32"
  shows "int32 x = x - 2 ^ 32"
proof -
  have "2 ^ 32 \<le> x + 2 ^ 31" "x + 2 ^ 31 < 2 * 2 ^ 32" using assms by simp_all
  then have "(x + 2 ^ 31 - 2 ^ 32) mod 2 ^ 32 = x + 2 ^ 31 - 2 ^ 32"
    by (intro mod_pos_pos_trivial) simp_all
  then have "(x + 2 ^ 31) mod 2 ^ 32 = x + 2 ^ 31 - 2 ^ 32"
    by (simp only: minus_mod_self2)
  then show ?thesis
    by (simp add: int32_def signed_take_bit_eq_take_bit_shift take_bit_eq_mod)
qed

lemma endWord_wraps: "c_div (roundUp (2 ^ 31 - 1) 64) 64 = - 33554431"
proof -
  have a: "int32 (2 ^ 31 - 1 + (64 - 1)) = - 2147483586"
    using int32_wrap [of "2 ^ 31 - 1 + (64 - 1)"] by simp
  have b: "c_div (- 2147483586) 64 * 64 = - 2147483584" by (simp add: c_div_def)
  have c: "int32 (- 2147483584) = - 2147483584" by (intro int32_id) simp_all
  show ?thesis unfolding roundUp_def a b c by (simp add: c_div_def)
qed

lemma indicesOfSetBits_end_wraps:
  "indicesOfSetBits fill a bits 0 (2 ^ 31 - 1) out = Some (out, 0)"
proof -
  have "word_loop fill a bits 0 (2 ^ 31 - 1) 0 (- 33554431) 0 st = Some st" for st
    by (subst word_loop.simps) simp
  moreover have "c_div 0 64 = 0" by (simp add: c_div_def)
  moreover have "int32 0 = 0" by (simp add: int32_def)
  ultimately show ?thesis
    unfolding indicesOfSetBits_def Let_def endWord_wraps by simp
qed

text \<open>
  C2, as the claim states it, fails at two places. With \<open>end = 2\<^sup>3\<^sup>1 - 1\<close> the next multiple of
  64 is \<open>2\<^sup>3\<^sup>1\<close>, which is no \<open>int32_t\<close>: \<open>endWord\<close> is negative, the loop over the words does
  not run and the call returns 0, although bit 0 of a bitmap that covers all of
  \<open>[0, 2\<^sup>3\<^sup>1 - 1)\<close> is set. And with an output buffer of exactly as many entries as there are
  set bits, the store of the dense strategy leaves the buffer.
\<close>

theorem indicesOfSetBits_range_counterexample:
  "indicesOfSetBits (\<lambda>b i. 0) generic32 (1 # replicate (2 ^ 25 - 1) 0) 0 (2 ^ 31 - 1)
       (replicate 8 9) = Some (replicate 8 9, 0)
   \<and> bit_at (1 # replicate (2 ^ 25 - 1) 0) 0
   \<and> indicesOfSetBits (\<lambda>b i. 0) generic32 [1] 0 1 [9] = None"
proof -
  have "bit_at (1 # replicate (2 ^ 25 - 1) 0) 0"
    unfolding bit_at_def by (simp only: div_0 mod_0 nth_Cons_0 bit_1_0)
  moreover have "indicesOfSetBits (\<lambda>b i. 0) generic32 [1] 0 1 [9] = None" by code_simp
  ultimately show ?thesis by (simp only: indicesOfSetBits_end_wraps simp_thms)
qed

text \<open>
  C2, amended: for a bitmap that covers \<open>[begin, end)\<close>, \<open>0 \<le> begin \<le> end \<le> 2\<^sup>3\<^sup>1 - 64\<close> and
  an output buffer with room for the set bits and one batch less one entry after them,
  \<open>indicesOfSetBits\<close> returns the number of set bits of \<open>[begin, end)\<close> and the buffer starts
  with their absolute positions, in strictly increasing order; and for every \<open>begin\<close>, \<open>end\<close>
  with \<open>end \<le> begin\<close> it returns 0 and writes nothing.
\<close>

theorem indicesOfSetBits_positions:
  "(end \<le> begin \<longrightarrow> indicesOfSetBits fill a bits begin end out = Some (out, 0))
   \<and> (0 \<le> begin \<and> begin \<le> end \<and> end \<le> 2 ^ 31 - 64 \<and> end \<le> 64 * int (length bits)
        \<and> length (set_positions bits begin end) + slack a \<le> length out
      \<longrightarrow> (\<exists>out'. indicesOfSetBits fill a bits begin end out
                   = Some (out', int (length (set_positions bits begin end)))
                \<and> take (length (set_positions bits begin end)) out'
                   = set_positions bits begin end
                \<and> sorted_wrt (<) (set_positions bits begin end)))"
proof (intro conjI impI)
  assume "end \<le> begin"
  then show "indicesOfSetBits fill a bits begin end out = Some (out, 0)"
    by (simp add: indicesOfSetBits_def)
next
  let ?ps = "set_positions bits begin end"
  assume "0 \<le> begin \<and> begin \<le> end \<and> end \<le> 2 ^ 31 - 64 \<and> end \<le> 64 * int (length bits)
      \<and> length ?ps + slack a \<le> length out"
  then have h: "0 \<le> begin" "begin \<le> end" "end \<le> 2 ^ 31 - 64" "end \<le> 64 * int (length bits)"
    "length ?ps + slack a \<le> length out"
    by simp_all
  from indicesOfSetBits_appended [OF h, of fill]
  obtain out' where r: "indicesOfSetBits fill a bits begin end out = Some (out', int (length ?ps))"
    and a: "appended out 0 ?ps (slack a) out'"
    by blast
  have "take (length ?ps) out' = ?ps" using a by (simp add: appended_def)
  then show "\<exists>out'. indicesOfSetBits fill a bits begin end out = Some (out', int (length ?ps))
      \<and> take (length ?ps) out' = ?ps \<and> sorted_wrt (<) ?ps"
    using r set_positions_increasing by blast
qed

theorem indicesOfSetBits_positions_witness:
  "indicesOfSetBits (\<lambda>b i. 0) generic16 [0xB] 4 0 [9, 9, 9] = Some ([9, 9, 9], 0)
   \<and> (\<exists>out'. indicesOfSetBits (\<lambda>b i. 0) generic32 [0xB] 0 4 (replicate 10 9) = Some (out', 3)
         \<and> take 3 out' = [0, 1, 3])"
proof -
  have ps: "set_positions [0xB] 0 4 = [0, 1, 3]" by code_simp
  have "(4 :: int) \<le> 64 * int (length [0xB :: 64 word])"
    "length (set_positions [0xB] 0 4) + slack generic32 \<le> length (replicate 10 (9 :: int))"
    unfolding ps by (simp_all add: slack_def batch_size_def)
  then have "\<exists>out'. indicesOfSetBits (\<lambda>b i. 0) generic32 [0xB] 0 4 (replicate 10 9)
        = Some (out', int (length (set_positions [0xB] 0 4)))
      \<and> take (length (set_positions [0xB] 0 4)) out' = set_positions [0xB] 0 4
      \<and> sorted_wrt (<) (set_positions [0xB] 0 4)"
    using indicesOfSetBits_positions [of 4 0 "\<lambda>b i. 0" generic32 "[0xB]" "replicate 10 9"]
    by simp
  then have "\<exists>out'. indicesOfSetBits (\<lambda>b i. 0) generic32 [0xB] 0 4 (replicate 10 9) = Some (out', 3)
      \<and> take 3 out' = [0, 1, 3]"
    unfolding ps by (auto simp: numeral_3_eq_3)
  moreover have "indicesOfSetBits (\<lambda>b i. 0) generic16 [0xB] 4 0 [9, 9, 9] = Some ([9, 9, 9], 0)"
    using indicesOfSetBits_positions [of 0 4 "\<lambda>b i. 0" generic16 "[0xB]" "[9, 9, 9]"] by simp
  ultimately show ?thesis by blast
qed

text \<open>
  C9: the entries of the output buffer after the returned count that a call can change are
  the next \<open>slack\<close>, the lanes of a batch of \<open>int32_t\<close> less one: the buffer keeps its length
  and all later entries. A call does change them: with one set bit, the 7 (with batches of
  4 lanes, the 3) entries after the one position hold the rest of the row of the table. And
  the buffer must have them: with room for the set bit and one entry less than that after
  it, the store leaves the buffer.
\<close>

theorem indicesOfSetBits_slack:
  "(0 \<le> begin \<and> begin \<le> end \<and> end \<le> 2 ^ 31 - 64 \<and> end \<le> 64 * int (length bits)
      \<and> length (set_positions bits begin end) + slack a \<le> length out
    \<longrightarrow> (\<exists>out' count. indicesOfSetBits fill a bits begin end out = Some (out', count)
            \<and> length out' = length out
            \<and> drop (nat count + slack a) out' = drop (nat count + slack a) out))
   \<and> indicesOfSetBits (\<lambda>b i. - 1) generic32 [1] 0 1 (replicate 9 9)
       = Some (0 # replicate 7 (- 1) @ [9], 1)
   \<and> indicesOfSetBits (\<lambda>b i. - 1) generic16 [1] 0 1 (replicate 5 9)
       = Some (0 # replicate 3 (- 1) @ [9], 1)
   \<and> indicesOfSetBits fill a [1] 0 1 (replicate (slack a) x) = None"
proof (intro conjI impI)
  let ?ps = "set_positions bits begin end"
  assume "0 \<le> begin \<and> begin \<le> end \<and> end \<le> 2 ^ 31 - 64 \<and> end \<le> 64 * int (length bits)
      \<and> length ?ps + slack a \<le> length out"
  then have h: "0 \<le> begin" "begin \<le> end" "end \<le> 2 ^ 31 - 64" "end \<le> 64 * int (length bits)"
    "length ?ps + slack a \<le> length out"
    by simp_all
  from indicesOfSetBits_appended [OF h, of fill]
  obtain out' where r: "indicesOfSetBits fill a bits begin end out = Some (out', int (length ?ps))"
    and a: "appended out 0 ?ps (slack a) out'"
    by blast
  have "length out' = length out"
    "drop (nat (int (length ?ps)) + slack a) out' = drop (nat (int (length ?ps)) + slack a) out"
    using a by (simp_all add: appended_def)
  then show "\<exists>out' count. indicesOfSetBits fill a bits begin end out = Some (out', count)
      \<and> length out' = length out \<and> drop (nat count + slack a) out' = drop (nat count + slack a) out"
    using r by blast
next
  show "indicesOfSetBits (\<lambda>b i. - 1) generic32 [1] 0 1 (replicate 9 9)
      = Some (0 # replicate 7 (- 1) @ [9], 1)"
    by code_simp
next
  show "indicesOfSetBits (\<lambda>b i. - 1) generic16 [1] 0 1 (replicate 5 9)
      = Some (0 # replicate 3 (- 1) @ [9], 1)"
    by code_simp
next
  show "indicesOfSetBits fill a [1] 0 1 (replicate (slack a) x) = None"
  proof (cases a)
    case generic16
    show ?thesis unfolding generic16 by code_simp
  next
    case generic32
    show ?thesis unfolding generic32 by code_simp
  qed
qed

theorem indicesOfSetBits_slack_witness:
  "\<exists>out'. indicesOfSetBits (\<lambda>b i. - 1) generic32 [0xF0F, 0, 0x8000000000000001, 5] 2 194
             (replicate 18 9) = Some (out', 9)
         \<and> length out' = 18 \<and> drop 16 out' = [9, 9]"
proof -
  let ?bits = "[0xF0F, 0, 0x8000000000000001, 5] :: 64 word list"
  have r: "indicesOfSetBits (\<lambda>b i. - 1) generic32 ?bits 2 194 (replicate 18 9)
      = Some ([2, 3, 8, 9, 10, 11, 128, 191, 192, 7, 9, 9, 9, 9, 9, 9, 9, 9], 9)"
    by code_simp
  have ps: "length (set_positions ?bits 2 194) = 9" by code_simp
  have "(194 :: int) \<le> 64 * int (length ?bits)"
    "length (set_positions ?bits 2 194) + slack generic32 \<le> length (replicate 18 (9 :: int))"
    unfolding ps by (simp_all add: slack_def batch_size_def)
  then have "\<exists>out' count. indicesOfSetBits (\<lambda>b i. - 1) generic32 ?bits 2 194 (replicate 18 9)
        = Some (out', count)
      \<and> length out' = length (replicate 18 (9 :: int))
      \<and> drop (nat count + slack generic32) out'
         = drop (nat count + slack generic32) (replicate 18 9)"
    using indicesOfSetBits_slack [of 2 194 ?bits generic32 "replicate 18 9" "\<lambda>b i. - 1"]
    by simp
  then show ?thesis unfolding r by (simp add: slack_def batch_size_def)
qed

end
